theory Spec2Isabelle
  imports Complex_Main
begin

section \<open>Synchronous data-parallel training: \<open>SyncGraphGroup\<close>\<close>

text \<open>
  A shallow embedding of \<^verbatim>\<open>src/training/graph_group_sync.h\<close>.

  Conventions of the embedding.
  \<^item> A tensor is the list of its elements. Tensor elements, costs and the decay are C++
    \<^verbatim>\<open>float\<close>s; they are modelled as real numbers, so element arithmetic is exact in the
    model. The one place where a \<^verbatim>\<open>float\<close> computation decides an integer (the shard size)
    is modelled bit-exactly, see below.
  \<^item> The two thread-pool phases of \<^verbatim>\<open>execute\<close> are modelled as loops in index order. The
    tasks of one phase write disjoint buffers, and each pool is joined (its destructor)
    before the next statement runs.
  \<^item> A member \<^verbatim>\<open>x_\<close> of the class is the field \<open>x\<close> of the record \<open>state\<close>; the
    gradient buffer \<^verbatim>\<open>params()->grads()\<close> of a graph is the field \<open>gradients\<close> of a replica.
  \<^item> The collaborators that are not part of this file (model builder, optimizer, scheduler,
    file system) are parameters of the model, gathered in the record \<open>env\<close>.
\<close>

subsection \<open>binary32 arithmetic on counts\<close>

text \<open>
  \<^verbatim>\<open>shardSize_ = ceil(totalSize / (float)devices_.size())\<close> converts both integers to
  binary32, divides in binary32 and rounds the quotient up to an integer. The functions
  below are these three steps for non-negative integers, in round-to-nearest, ties-to-even;
  the values that occur are far inside the normal range of binary32.
\<close>

text \<open>The number of binary digits of \<open>n\<close>.\<close>

fun bits :: "nat \<Rightarrow> nat" where
  "bits n = (if n = 0 then 0 else Suc (bits (n div 2)))"

declare bits.simps [simp del]

text \<open>The integer nearest to \<open>num / den\<close>, the even one of two nearest.\<close>

definition round_even :: "nat \<Rightarrow> nat \<Rightarrow> nat" where
  "round_even num den =
     (let f = num div den; r = num mod den
      in if 2 * r < den then f
         else if den < 2 * r then f + 1
         else if even f then f else f + 1)"

text \<open>\<^verbatim>\<open>(float)n\<close>: \<open>n\<close> rounded to 24 significant binary digits.\<close>

definition f32_of_nat :: "nat \<Rightarrow> nat" where
  "f32_of_nat n = (let sh = bits n - 24 in round_even n (2 ^ sh) * 2 ^ sh)"

text \<open>
  The binary32 quotient \<^verbatim>\<open>p / q\<close> of two integer-valued binary32 numbers, \<open>q > 0\<close>: with
  \<open>2 ^ e \<le> p / q < 2 ^ (e + 1)\<close> the quotient is rounded to a multiple of \<open>2 ^ (e - 23)\<close>.
\<close>

definition f32_div :: "nat \<Rightarrow> nat \<Rightarrow> rat" where
  "f32_div p q =
     (if p = 0 then 0
      else let d = int (bits p) - int (bits q);
               e = (if q * 2 ^ nat d \<le> p * 2 ^ nat (- d) then d else d - 1);
               k = 23 - e
           in of_nat (round_even (p * 2 ^ nat k) (q * 2 ^ nat (- k))) * 2 powi (- k))"

text \<open>\<^verbatim>\<open>ceil(totalSize / (float)devices_.size())\<close>, stored in the \<^verbatim>\<open>int shardSize_\<close>.\<close>

definition shardSizeOf :: "nat \<Rightarrow> nat \<Rightarrow> nat" where
  "shardSizeOf totalSize n = nat \<lceil>f32_div (f32_of_nat totalSize) (f32_of_nat n)\<rceil>"

subsection \<open>Tensors\<close>

type_synonym tensor = "real list"

text \<open>\<^verbatim>\<open>t->subtensor(pos, size)\<close>, read as a value.\<close>

definition subtensor :: "nat \<Rightarrow> nat \<Rightarrow> tensor \<Rightarrow> tensor" where
  "subtensor pos sz t = take sz (drop pos t)"

text \<open>
  \<^verbatim>\<open>dst->subtensor(pos, src->size())->copyFrom(src)\<close>: the elements of \<open>dst\<close> from
  \<open>pos\<close> on are overwritten with \<open>src\<close>. A write past the end of the buffer
  is undefined in the source and does not occur for the shard tables built below
  (lemma \<open>shardRanges_in_bounds\<close>); the model leaves the buffer's length as it is.
\<close>

definition copyTo :: "nat \<Rightarrow> tensor \<Rightarrow> tensor \<Rightarrow> tensor" where
  "copyTo pos src dst =
     map (\<lambda>i. if pos \<le> i \<and> i < pos + length src then src ! (i - pos) else dst ! i)
       [0..<length dst]"

text \<open>\<^verbatim>\<open>dst->copyFrom(src)\<close> for a whole tensor.\<close>

definition copyFrom :: "tensor \<Rightarrow> tensor \<Rightarrow> tensor" where
  "copyFrom src dst = copyTo 0 src dst"

subsection \<open>The shard table\<close>

text \<open>
  The loop of lines 92--112: for each device the shard gets \<open>min shardSize totalSize\<close>
  elements at the running offset \<open>pos\<close>; the result lists the pairs (offset, size).
\<close>

fun shardRanges :: "nat \<Rightarrow> nat \<Rightarrow> nat \<Rightarrow> 'd list \<Rightarrow> (nat \<times> nat) list" where
  "shardRanges shardSz pos totalSize [] = []"
| "shardRanges shardSz pos totalSize (device # devs) =
     (let sz = min shardSz totalSize
      in (pos, sz) # shardRanges shardSz (pos + sz) (totalSize - sz) devs)"

definition shardTable :: "nat \<Rightarrow> 'd list \<Rightarrow> (nat \<times> nat) list" where
  "shardTable totalSize devs =
     shardRanges (shardSizeOf totalSize (length devs)) 0 totalSize devs"

subsection \<open>Element-wise operations and the moving average\<close>

text \<open>
  \<^verbatim>\<open>Element(f, out, in)\<close> assigns \<open>f (out[i], in[i])\<close> to \<open>out[i]\<close> for every index of
  \<open>out\<close>.
\<close>

definition Element :: "(real \<Rightarrow> real \<Rightarrow> real) \<Rightarrow> tensor \<Rightarrow> tensor \<Rightarrow> tensor" where
  "Element f out inp = map (\<lambda>i. f (out ! i) (inp ! i)) [0..<length out]"

text \<open>
  Line 50: \<^verbatim>\<open>min(mvDecay_, (float)(batches + 1) / (float)(batches + 10))\<close>, with the
  \<^verbatim>\<open>size_t\<close> count as a natural number and the quotient as a real number.
\<close>

definition decay :: "real \<Rightarrow> nat \<Rightarrow> real" where
  "decay c batches = min c (real (batches + 1) / real (batches + 10))"

definition updateMovingAverage :: "real \<Rightarrow> tensor \<Rightarrow> tensor \<Rightarrow> nat \<Rightarrow> tensor" where
  "updateMovingAverage c avg p batches =
     (let d = decay c batches
      in Element (\<lambda>x y. (d * x) + ((1 - d) * y)) avg p)"

subsection \<open>State and collaborators\<close>

text \<open>
  Failures of the source that the model keeps as values: the dereference of a null
  \<^verbatim>\<open>scheduler_\<close>, an index or a string position out of range, and a failure reported by
  a collaborator that reads a file.
\<close>

datatype error = NullScheduler | OutOfRange | IOError

text \<open>One replica: the flat parameter and gradient buffers of \<^verbatim>\<open>graphs_[i]->params()\<close>.\<close>

record replica =
  vals :: tensor
  gradients :: tensor

record options =
  no_reload :: bool
  model_path :: string
  overwrite :: bool

text \<open>
  What \<^verbatim>\<open>save\<close> hands to the serialization collaborators: the call
  \<^verbatim>\<open>builders_[idx]->save(graph, name, flag)\<close> with the parameter values the graph holds at
  that moment (the flag is absent in the two-argument call), and \<^verbatim>\<open>scheduler_->save(name)\<close>.
\<close>

datatype 's saved = ModelSaved string tensor "bool option" | SchedulerSaved string 's

record ('o, 's) state =
  options :: options
  scheduler :: "'s option"
  graphs :: "replica list"
  devices :: "nat list"
  params :: "tensor list"
  grads :: "tensor list"
  tmpTensors :: "tensor list"
  shardOpt :: "'o list"
  shardSize :: nat
  first :: bool
  paramsAvg :: "tensor list"
  movingAvg :: bool
  mvDecay :: real
  disk :: "'s saved list"

text \<open>
  Modelled from the spec: the collaborators of sections 4.1, 4.3 and 6, whose code is not
  in this file.
  \<^item> \<open>batch_split b n\<close> is \<^verbatim>\<open>b->split(n)\<close>, \<open>batch_size b\<close> is \<^verbatim>\<open>b->size()\<close>.
  \<^item> \<open>build_forward i b g\<close> is the first build and forward pass of replica \<open>i\<close>, which
    creates its parameters.
  \<^item> \<open>train_step i b g\<close> is build, forward, \<^verbatim>\<open>costNode->scalar()\<close> and backward of a
    training step: it yields the cost and the replica's gradient buffer, and leaves the
    parameter buffer as it is.
  \<^item> \<open>opt_update opt p g\<close> is \<^verbatim>\<open>opt->update(p, g)\<close>: the optimizer's new state and the
    new contents of the two tensors it was given.
  \<^item> The scheduler is a value of type \<open>'s\<close> with the operations of section 6.
\<close>

record ('b, 'o, 's) env =
  batch_split :: "'b \<Rightarrow> nat \<Rightarrow> 'b list"
  batch_size :: "'b \<Rightarrow> nat"
  build_forward :: "nat \<Rightarrow> 'b \<Rightarrow> replica \<Rightarrow> replica"
  train_step :: "nat \<Rightarrow> 'b \<Rightarrow> replica \<Rightarrow> real \<times> tensor"
  opt_update :: "'o \<Rightarrow> tensor \<Rightarrow> tensor \<Rightarrow> 'o \<times> tensor \<times> tensor"
  sched_update :: "'s \<Rightarrow> real \<Rightarrow> 'b \<Rightarrow> 's"
  saving :: "'s \<Rightarrow> bool"
  validating :: "'s \<Rightarrow> bool"
  validate :: "'s \<Rightarrow> replica \<Rightarrow> 's"
  numberOfBatches :: "'s \<Rightarrow> nat"
  file_exists :: "string \<Rightarrow> bool"
  sched_load :: "'s \<Rightarrow> string \<Rightarrow> error + 's"
  model_load :: "nat \<Rightarrow> replica \<Rightarrow> string \<Rightarrow> error + replica"

text \<open>
  The constructor: one graph, one optimizer and one builder per device; the graphs have
  no parameters before the first build.
\<close>

definition SyncGraphGroup :: "options \<Rightarrow> nat list \<Rightarrow> bool \<Rightarrow> real \<Rightarrow> 'o \<Rightarrow> ('o, 's) state" where
  "SyncGraphGroup opts devs movingAverage movingDecay opt =
     \<lparr>options = opts, scheduler = None,
      graphs = map (\<lambda>device. \<lparr>vals = [], gradients = []\<rparr>) devs,
      devices = devs, params = [], grads = [], tmpTensors = [],
      shardOpt = map (\<lambda>device. opt) devs,
      shardSize = 0, first = True, paramsAvg = [],
      movingAvg = movingAverage, mvDecay = movingDecay, disk = []\<rparr>"

definition setScheduler :: "'s \<Rightarrow> ('o, 's) state \<Rightarrow> ('o, 's) state" where
  "setScheduler sched st = st\<lparr>scheduler := Some sched\<rparr>"

subsection \<open>\<open>fetchParams\<close>\<close>

text \<open>
  Lines 54--70: shard \<open>idx\<close> is copied into \<open>oldParams\<close> at offset \<open>idx * shardSize\<close> (the field)
  (\<open>pos\<close> grows by \<^verbatim>\<open>shardSize_\<close>). The copies run in threads of their own, joined before
  the function returns. Reading \<open>params[idx]\<close> beyond the end of the vector is the error
  \<open>OutOfRange\<close>.
\<close>

fun fetchLoop :: "nat \<Rightarrow> nat \<Rightarrow> tensor list \<Rightarrow> nat list \<Rightarrow> tensor \<Rightarrow> tensor" where
  "fetchLoop shardSz pos shards [] oldParams = oldParams"
| "fetchLoop shardSz pos shards (idx # idxs) oldParams =
     fetchLoop shardSz (pos + shardSz) shards idxs (copyTo pos (shards ! idx) oldParams)"

definition fetchParams :: "('o, 's) state \<Rightarrow> tensor \<Rightarrow> tensor list \<Rightarrow> error + tensor" where
  "fetchParams st oldParams shards =
     (if length shards < length (devices st) then Inl OutOfRange
      else Inr (fetchLoop (shardSize st) 0 shards [0..<length (devices st)] oldParams))"

text \<open>The same with the result stored in replica \<open>idx\<close>.\<close>

definition fetchInto :: "nat \<Rightarrow> tensor list \<Rightarrow> ('o, 's) state \<Rightarrow> error + ('o, 's) state" where
  "fetchInto idx shards st =
     (case fetchParams st (vals (graphs st ! idx)) shards of
        Inl e \<Rightarrow> Inl e
      | Inr v \<Rightarrow> Inr (st\<lparr>graphs := (graphs st)[idx := (graphs st ! idx)\<lparr>vals := v\<rparr>]\<rparr>))"

subsection \<open>The first step (lines 75--136)\<close>

definition initGraph :: "('b, 'o, 's) env \<Rightarrow> 'b \<Rightarrow> replica list \<Rightarrow> nat \<Rightarrow> replica list" where
  "initGraph E b gs i =
     (let gs1 = gs[i := build_forward E i b (gs ! i)]
      in if 0 < i
         then gs1[i := (gs1 ! i)\<lparr>vals := copyFrom (vals (gs1 ! 0)) (vals (gs1 ! i))\<rparr>]
         else gs1)"

definition initGraphs :: "('b, 'o, 's) env \<Rightarrow> 'b \<Rightarrow> replica list \<Rightarrow> replica list" where
  "initGraphs E b gs = foldl (initGraph E b) gs [0..<length gs]"

text \<open>
  Lines 92--112. The three tensors of a shard are allocated with \<open>sz\<close> elements; the
  parameter tensor is then filled from replica 0. The contents of a fresh tensor are
  not fixed by the source; the model takes zeros, and every read of the gradient and
  scratch tensors follows a write (\<^verbatim>\<open>set(0)\<close>, \<^verbatim>\<open>copyFrom\<close>).
\<close>

fun allocShards :: "tensor \<Rightarrow> nat \<Rightarrow> nat \<Rightarrow> nat list \<Rightarrow> ('o, 's) state \<Rightarrow> ('o, 's) state" where
  "allocShards v0 pos totalSize [] st = st"
| "allocShards v0 pos totalSize (device # devs) st =
     (let sz = min (shardSize st) totalSize;
          param = copyFrom (subtensor pos sz v0) (replicate sz 0)
      in allocShards v0 (pos + sz) (totalSize - sz) devs
           (st\<lparr>params := params st @ [param],
               grads := grads st @ [replicate sz 0],
               tmpTensors := tmpTensors st @ [replicate sz 0]\<rparr>))"

text \<open>Lines 118--132.\<close>

fun allocAvg :: "nat \<Rightarrow> nat \<Rightarrow> nat list \<Rightarrow> ('o, 's) state \<Rightarrow> ('o, 's) state" where
  "allocAvg totalSize i [] st = st"
| "allocAvg totalSize i (device # devs) st =
     (let sz = min (shardSize st) totalSize;
          paramAvg = copyFrom (params st ! i) (replicate sz 0)
      in allocAvg (totalSize - sz) (i + 1) devs
           (st\<lparr>paramsAvg := paramsAvg st @ [paramAvg]\<rparr>))"

definition firstStep :: "('b, 'o, 's) env \<Rightarrow> 'b list \<Rightarrow> ('o, 's) state \<Rightarrow> ('o, 's) state" where
  "firstStep E batches st =
     (let st1 = st\<lparr>graphs := initGraphs E (batches ! 0) (graphs st)\<rparr>;
          v0 = vals (graphs st1 ! 0);
          st2 = (if params st1 = []
                 then allocShards v0 0 (length v0) (devices st1)
                        (st1\<lparr>shardSize := shardSizeOf (length v0) (length (devices st1))\<rparr>)
                 else st1);
          st3 = (if movingAvg st2 \<and> paramsAvg st2 = []
                 then allocAvg (length v0) 0 (devices st2) st2
                 else st2)
      in st3\<lparr>first := False\<rparr>)"

subsection \<open>The compute phase (lines 138--156)\<close>

definition computeTask ::
  "('b, 'o, 's) env \<Rightarrow> 'b list \<Rightarrow> real list \<times> replica list \<Rightarrow> nat \<Rightarrow> real list \<times> replica list" where
  "computeTask E batches cg idx =
     (if 0 < batch_size E (batches ! idx)
      then let r = train_step E idx (batches ! idx) (snd cg ! idx)
           in ((fst cg)[idx := fst r], (snd cg)[idx := (snd cg ! idx)\<lparr>gradients := snd r\<rparr>])
      else cg)"

definition computePhase ::
  "('b, 'o, 's) env \<Rightarrow> 'b list \<Rightarrow> ('o, 's) state \<Rightarrow> real list \<times> ('o, 's) state" where
  "computePhase E batches st =
     (let cg = foldl (computeTask E batches) (replicate (length (devices st)) 0, graphs st)
                 [0..<length batches]
      in (fst cg, st\<lparr>graphs := snd cg\<rparr>))"

subsection \<open>The reduction phase (lines 158--190)\<close>

text \<open>
  Lines 162--170, for the shard at offset \<open>pos\<close> with \<open>sz\<close> elements: \<open>acc\<close> is
  \<^verbatim>\<open>grads_[idx]\<close>, \<open>tmp\<close> is \<^verbatim>\<open>tmpTensors_[idx]\<close>, \<open>i\<close> counts the replicas.
\<close>

fun accumulate ::
  "('b, 'o, 's) env \<Rightarrow> 'b list \<Rightarrow> nat \<Rightarrow> nat \<Rightarrow> nat \<Rightarrow> replica list \<Rightarrow> tensor \<times> tensor
     \<Rightarrow> tensor \<times> tensor" where
  "accumulate E batches pos sz i [] bufs = bufs"
| "accumulate E batches pos sz i (g # gs) bufs =
     (if 0 < batch_size E (batches ! i)
      then let tmp = copyFrom (subtensor pos sz (gradients g)) (snd bufs)
           in accumulate E batches pos sz (i + 1) gs (Element (+) (fst bufs) tmp, tmp)
      else accumulate E batches pos sz (i + 1) gs bufs)"

text \<open>Lines 178--181: the broadcast of one shard.\<close>

definition broadcast :: "nat \<Rightarrow> tensor \<Rightarrow> replica list \<Rightarrow> replica list" where
  "broadcast pos param gs = map (\<lambda>g. g\<lparr>vals := copyTo pos param (vals g)\<rparr>) gs"

text \<open>The task of lines 159--182 for shard \<open>idx\<close>.\<close>

definition reduceTask ::
  "('b, 'o, 's) env \<Rightarrow> 'b list \<Rightarrow> nat \<Rightarrow> nat \<Rightarrow> ('o, 's) state \<Rightarrow> error + ('o, 's) state" where
  "reduceTask E batches idx pos st =
     (let zero = replicate (length (grads st ! idx)) 0;
          sz = length (params st ! idx);
          bufs = accumulate E batches pos sz 0 (graphs st) (zero, tmpTensors st ! idx);
          u = opt_update E (shardOpt st ! idx) (params st ! idx) (fst bufs);
          st1 = st\<lparr>tmpTensors := (tmpTensors st)[idx := snd bufs],
                   shardOpt := (shardOpt st)[idx := fst u],
                   params := (params st)[idx := fst (snd u)],
                   grads := (grads st)[idx := snd (snd u)]\<rparr>
      in case (if movingAvg st1
               then (case scheduler st1 of
                       None \<Rightarrow> Inl NullScheduler
                     | Some s \<Rightarrow>
                         Inr (st1\<lparr>paramsAvg := (paramsAvg st1)
                                [idx := updateMovingAverage (mvDecay st1) (paramsAvg st1 ! idx)
                                          (params st1 ! idx) (numberOfBatches E s)]\<rparr>))
               else Inr st1) of
           Inl e \<Rightarrow> Inl e
         | Inr st2 \<Rightarrow>
             Inr (st2\<lparr>graphs := broadcast pos (params st2 ! idx) (graphs st2)\<rparr>))"

text \<open>Lines 184--189: one task per device, \<open>pos\<close> advanced by the size of each shard.\<close>

fun reduceLoop ::
  "('b, 'o, 's) env \<Rightarrow> 'b list \<Rightarrow> nat \<Rightarrow> nat list \<Rightarrow> ('o, 's) state \<Rightarrow> error + ('o, 's) state" where
  "reduceLoop E batches pos [] st = Inr st"
| "reduceLoop E batches pos (idx # idxs) st =
     (case reduceTask E batches idx pos st of
        Inl e \<Rightarrow> Inl e
      | Inr st' \<Rightarrow> reduceLoop E batches (pos + length (params st ! idx)) idxs st')"

definition reducePhase ::
  "('b, 'o, 's) env \<Rightarrow> 'b list \<Rightarrow> ('o, 's) state \<Rightarrow> error + ('o, 's) state" where
  "reducePhase E batches st = reduceLoop E batches 0 [0..<length (devices st)] st"

text \<open>Lines 192--195.\<close>

definition reportedCost :: "real list \<Rightarrow> real" where
  "reportedCost costs = foldl (+) 0 costs / real (length costs)"

subsection \<open>Saving (lines 249--289)\<close>

text \<open>\<^verbatim>\<open>std::to_string\<close> of a \<^verbatim>\<open>size_t\<close>: the decimal digits.\<close>

fun to_string :: "nat \<Rightarrow> string" where
  "to_string n =
     (if n < 10 then [''0123456789'' ! n]
      else to_string (n div 10) @ [''0123456789'' ! (n mod 10)])"

declare to_string.simps [simp del]

text \<open>
  Lines 276--278: \<^verbatim>\<open>nameOverwrite.replace(name.size() - 4, 4, ".iter" + n + ".npz")\<close>. For a
  name of fewer than four characters the unsigned position wraps around to a value
  beyond the end of the string, and \<^verbatim>\<open>replace\<close> throws \<^verbatim>\<open>std::out_of_range\<close>.
\<close>

definition nameOverwrite :: "string \<Rightarrow> string \<Rightarrow> error + string" where
  "nameOverwrite name n =
     (if length name < 4 then Inl OutOfRange
      else Inr (take (length name - 4) name @ ''.iter'' @ n @ ''.npz''))"

text \<open>Lines 263--285: the calls to the serialization collaborators.\<close>

definition persist ::
  "('b, 'o, 's) env \<Rightarrow> nat \<Rightarrow> bool \<Rightarrow> ('o, 's) state \<Rightarrow> error + ('o, 's) state" where
  "persist E idx isFinal st =
     (let name = model_path (options st);
          v = vals (graphs st ! idx);
          model_and_scheduler =
            ModelSaved name v (Some True) #
            (case scheduler st of None \<Rightarrow> [] | Some s \<Rightarrow> [SchedulerSaved name s])
      in if overwrite (options st) then Inr (st\<lparr>disk := disk st @ model_and_scheduler\<rparr>)
         else if \<not> isFinal
         then (case nameOverwrite name
                      (case scheduler st of
                         Some s \<Rightarrow> to_string (numberOfBatches E s)
                       | None \<Rightarrow> ''unknown'') of
                 Inl e \<Rightarrow> Inl e
               | Inr iterName \<Rightarrow>
                   Inr (st\<lparr>disk := disk st @ ModelSaved iterName v None # model_and_scheduler\<rparr>))
         else Inr (st\<lparr>disk := disk st @ model_and_scheduler\<rparr>))"

text \<open>
  \<^verbatim>\<open>save(graph, final)\<close>. A graph is named by its position \<open>g\<close> in \<^verbatim>\<open>graphs_\<close>; a graph
  that is not in the vector (\<open>g\<close> beyond its end) leaves \<open>idx = 0\<close>.
\<close>

definition save_graph ::
  "('b, 'o, 's) env \<Rightarrow> nat \<Rightarrow> bool \<Rightarrow> ('o, 's) state \<Rightarrow> error + ('o, 's) state" where
  "save_graph E g isFinal st =
     (let idx = (if g < length (graphs st) then g else 0)
      in case (if movingAvg st then fetchInto idx (paramsAvg st) st else Inr st) of
           Inl e \<Rightarrow> Inl e
         | Inr st1 \<Rightarrow>
             (case persist E idx isFinal st1 of
                Inl e \<Rightarrow> Inl e
              | Inr st2 \<Rightarrow>
                  if movingAvg st2 then fetchInto idx (params st2) st2 else Inr st2))"

definition save :: "('b, 'o, 's) env \<Rightarrow> bool \<Rightarrow> ('o, 's) state \<Rightarrow> error + ('o, 's) state" where
  "save E isFinal st = save_graph E 0 isFinal st"

subsection \<open>Validation (lines 204--212)\<close>

definition validation :: "('b, 'o, 's) env \<Rightarrow> ('o, 's) state \<Rightarrow> error + ('o, 's) state" where
  "validation E st =
     (case (if movingAvg st then fetchInto 0 (paramsAvg st) st else Inr st) of
        Inl e \<Rightarrow> Inl e
      | Inr st1 \<Rightarrow>
          (let st2 = st1\<lparr>scheduler :=
                       map_option (\<lambda>s. validate E s (graphs st1 ! 0)) (scheduler st1)\<rparr>
           in if movingAvg st2 then fetchInto 0 (params st2) st2 else Inr st2))"

subsection \<open>\<open>execute\<close> and \<open>update\<close>\<close>

text \<open>Lines 197--213, with the cost of lines 192--195.\<close>

definition afterStep ::
  "('b, 'o, 's) env \<Rightarrow> 'b \<Rightarrow> real \<Rightarrow> ('o, 's) state \<Rightarrow> error + ('o, 's) state" where
  "afterStep E batch cost st =
     (case scheduler st of
        None \<Rightarrow> Inr st
      | Some s \<Rightarrow>
          (let s1 = sched_update E s cost batch;
               st1 = st\<lparr>scheduler := Some s1\<rparr>
           in case (if saving E s1 then save E False st1 else Inr st1) of
                Inl e \<Rightarrow> Inl e
              | Inr st2 \<Rightarrow> if validating E s1 then validation E st2 else Inr st2))"

definition execute ::
  "('b, 'o, 's) env \<Rightarrow> 'b \<Rightarrow> ('o, 's) state \<Rightarrow> error + ('o, 's) state" where
  "execute E batch st =
     (let batches = batch_split E batch (length (devices st));
          st1 = (if first st then firstStep E batches st else st);
          cs = computePhase E batches st1
      in case reducePhase E batches (snd cs) of
           Inl e \<Rightarrow> Inl e
         | Inr st3 \<Rightarrow> afterStep E batch (reportedCost (fst cs)) st3)"

definition update ::
  "('b, 'o, 's) env \<Rightarrow> 'b \<Rightarrow> ('o, 's) state \<Rightarrow> error + ('o, 's) state" where
  "update E batch st = execute E batch st"

subsection \<open>Loading (lines 236--247)\<close>

fun loadGraphs ::
  "('b, 'o, 's) env \<Rightarrow> string \<Rightarrow> nat \<Rightarrow> replica list \<Rightarrow> error + replica list" where
  "loadGraphs E init i [] = Inr []"
| "loadGraphs E init i (g # gs) =
     (case model_load E i g init of
        Inl e \<Rightarrow> Inl e
      | Inr g' \<Rightarrow>
          (case loadGraphs E init (i + 1) gs of
             Inl e \<Rightarrow> Inl e
           | Inr gs' \<Rightarrow> Inr (g' # gs')))"

definition load :: "('b, 'o, 's) env \<Rightarrow> ('o, 's) state \<Rightarrow> error + ('o, 's) state" where
  "load E st =
     (if \<not> no_reload (options st)
      then (let init = model_path (options st)
            in if file_exists E init
               then (case (case scheduler st of
                             None \<Rightarrow> Inr None
                           | Some s \<Rightarrow>
                               (case sched_load E s init of
                                  Inl e \<Rightarrow> Inl e
                                | Inr s' \<Rightarrow> Inr (Some s'))) of
                       Inl e \<Rightarrow> Inl e
                     | Inr sch \<Rightarrow>
                         (case loadGraphs E init 0 (graphs st) of
                            Inl e \<Rightarrow> Inl e
                          | Inr gs \<Rightarrow> Inr (st\<lparr>scheduler := sch, graphs := gs\<rparr>)))
               else Inr st)
      else Inr st)"

subsection \<open>Predicates of the properties\<close>

text \<open>
  The definitions of this subsection are not part of the source; the properties below
  are stated with them.
\<close>


text \<open>
  Modelled from the spec: the optimizer updates the parameter tensor in place (section
  4.4), so both tensors keep their sizes.
\<close>

definition opt_in_place :: "('b, 'o, 's) env \<Rightarrow> bool" where
  "opt_in_place E =
     (\<forall>opt p g. length (fst (snd (opt_update E opt p g))) = length p
                \<and> length (snd (snd (opt_update E opt p g))) = length g)"

text \<open>
  Modelled from the spec: the replicas are built from one configuration, so each has the
  same number \<open>T\<close> of parameters.
\<close>

definition same_size :: "('b, 'o, 's) env \<Rightarrow> nat \<Rightarrow> bool" where
  "same_size E T = (\<forall>i b g. length (vals (build_forward E i b g)) = T)"

text \<open>
  The offset of shard \<open>a\<close> in the reduction phase: the sizes of the shards before it
  (lines 185--189).
\<close>

definition offset :: "tensor list \<Rightarrow> nat \<Rightarrow> nat" where
  "offset ps a = length (concat (take a ps))"

text \<open>
  The shards have the sizes that the loop of lines 92--112 gives them for \<open>T\<close> parameters
  and the shard size \<open>S\<close>: shard \<open>k\<close> has \<open>min S (T - k * S)\<close> elements, which is 0 once
  \<open>k * S\<close> reaches \<open>T\<close>.
\<close>

definition shard_sizes :: "nat \<Rightarrow> nat \<Rightarrow> tensor list \<Rightarrow> bool" where
  "shard_sizes S T ps = (\<forall>k < length ps. length (ps ! k) = min S (T - k * S))"

text \<open>All replicas hold the same parameter values.\<close>

definition replicas_identical :: "replica list \<Rightarrow> bool" where
  "replicas_identical gs = (\<forall>g \<in> set gs. vals g = vals (gs ! 0))"

text \<open>
  A group as the constructor leaves it, with at least one device; \<open>setScheduler\<close> and
  \<open>load\<close> keep it so.
\<close>

definition fresh :: "('o, 's) state \<Rightarrow> bool" where
  "fresh st =
     (first st \<and> devices st \<noteq> [] \<and> length (graphs st) = length (devices st)
      \<and> params st = [] \<and> grads st = [] \<and> tmpTensors st = [] \<and> paramsAvg st = [])"

text \<open>
  A group between two steps: one shard per device with the sizes of the shard table,
  gradient, scratch and (if enabled) shadow tensors of the same sizes, identical replicas,
  and the parameters of a replica begin with the concatenation of the shards.
\<close>

definition synchronized :: "('o, 's) state \<Rightarrow> bool" where
  "synchronized st =
     (\<not> first st \<and> devices st \<noteq> []
      \<and> length (graphs st) = length (devices st)
      \<and> length (params st) = length (devices st)
      \<and> shard_sizes (shardSize st) (length (vals (graphs st ! 0))) (params st)
      \<and> map length (grads st) = map length (params st)
      \<and> map length (tmpTensors st) = map length (params st)
      \<and> (movingAvg st \<longrightarrow> map length (paramsAvg st) = map length (params st))
      \<and> replicas_identical (graphs st)
      \<and> take (length (concat (params st))) (vals (graphs st ! 0)) = concat (params st))"

subsection \<open>A concrete instance\<close>

text \<open>
  Collaborators for the examples: a batch is its number of sentences and is split into
  near-equal parts; replica \<open>i\<close> is built with five parameters, the first of which
  depends on \<open>i\<close>; a training step costs 3 and yields the parameters scaled by the batch
  size as gradient; the optimizer subtracts the gradient; the scheduler counts the batches
  and keeps the last number it was given: the cost of a step, or the sum of the parameters
  of the graph that it validates.
\<close>

definition exampleOptions :: options where
  "exampleOptions = \<lparr>no_reload = False, model_path = ''model.npz'', overwrite = False\<rparr>"

definition exampleEnv :: "bool \<Rightarrow> bool \<Rightarrow> bool \<Rightarrow> (nat, unit, nat \<times> real) env" where
  "exampleEnv sv vl ex =
     \<lparr>batch_split = (\<lambda>b n. map (\<lambda>i. (b + n - 1 - i) div n) [0..<n]),
      batch_size = (\<lambda>b. b),
      build_forward = (\<lambda>i b g. \<lparr>vals = [real i, 1, 2, 3, 4], gradients = [0, 0, 0, 0, 0]\<rparr>),
      train_step = (\<lambda>i b g. (3, map (\<lambda>x. real b * x) (vals g))),
      opt_update = (\<lambda>opt p g. (opt, map (\<lambda>k. p ! k - g ! k) [0..<length p], g)),
      sched_update = (\<lambda>s c b. (fst s + 1, c)),
      saving = (\<lambda>s. sv),
      validating = (\<lambda>s. vl),
      validate = (\<lambda>s g. (fst s, sum_list (vals g))),
      numberOfBatches = (\<lambda>s. fst s),
      file_exists = (\<lambda>name. ex),
      sched_load = (\<lambda>s name. Inr (7, 0)),
      model_load = (\<lambda>i g name. Inr (g\<lparr>vals := [9, 9, 9, 9, 9]\<rparr>))\<rparr>"

definition exampleGroup :: "nat list \<Rightarrow> bool \<Rightarrow> (unit, nat \<times> real) state" where
  "exampleGroup devs movingAverage = SyncGraphGroup exampleOptions devs movingAverage (9999 / 10000) ()"


text \<open>
  A group with two devices and three parameters after some steps: the shards \<open>[1, 2]\<close> and
  \<open>[3]\<close>, their moving averages \<open>[5, 6]\<close> and \<open>[7]\<close>, and a scheduler that has seen three
  batches.
\<close>

definition exampleTrained :: "(unit, nat \<times> real) state" where
  "exampleTrained =
     \<lparr>options = exampleOptions, scheduler = Some (3, 0),
      graphs = [\<lparr>vals = [1, 2, 3], gradients = [0, 0, 0]\<rparr>,
                \<lparr>vals = [1, 2, 3], gradients = [0, 0, 0]\<rparr>],
      devices = [0, 1], params = [[1, 2], [3]], grads = [[0, 0], [0]],
      tmpTensors = [[0, 0], [0]], shardOpt = [(), ()], shardSize = 2, first = False,
      paramsAvg = [[5, 6], [7]], movingAvg = True, mvDecay = 9999 / 10000, disk = []\<rparr>"

section \<open>Properties\<close>

subsection \<open>Evaluation of the binary32 functions\<close>

lemma bits_numeral [simp]:
  "bits (numeral k) = Suc (bits (numeral k div 2))"
  "bits 0 = 0" "bits 1 = 1" "bits (Suc 0) = 1"
  by (simp_all add: bits.simps)

subsection \<open>Shard ranges\<close>

lemma shardRanges_length [simp]: "length (shardRanges s pos t ds) = length ds"
  by (induction ds arbitrary: pos t) (simp_all add: Let_def)

lemma shardRanges_sum_le: "sum_list (map snd (shardRanges s pos t ds)) \<le> t"
proof (induction ds arbitrary: pos t)
  case Nil
  show ?case by simp
next
  case (Cons d ds)
  have "sum_list (map snd (shardRanges s (pos + min s t) (t - min s t) ds)) \<le> t - min s t"
    by (rule Cons.IH)
  then show ?case by (simp add: Let_def)
qed

lemma shardRanges_sum_eq:
  "t \<le> length ds * s \<Longrightarrow> sum_list (map snd (shardRanges s pos t ds)) = t"
proof (induction ds arbitrary: pos t)
  case Nil
  then show ?case by simp
next
  case (Cons d ds)
  have "t - min s t \<le> length ds * s"
    using Cons.prems by (simp add: min_def) arith
  then have "sum_list (map snd (shardRanges s (pos + min s t) (t - min s t) ds)) = t - min s t"
    by (rule Cons.IH)
  then show ?case by (simp add: Let_def)
qed

text \<open>
  C2 (shard table partitions \<open>[0, T)\<close> with \<open>shardSizeOf = ceil (T / N)\<close>): evaluation of the
  source at \<open>T = 16777217 = 2 ^ 24 + 1\<close> parameters and two devices. \<^verbatim>\<open>(float)totalSize\<close> is
  \<open>16777216\<close>, so the shard size is \<open>8388608\<close> and not \<open>ceil (T / 2) = 8388609\<close>; the two
  shards are \<open>[0, 8388608)\<close> and \<open>[8388608, 16777216)\<close>, and the parameter at index
  \<open>16777216\<close> belongs to no shard.
\<close>

theorem shardTable_drops_parameter:
  "f32_of_nat 16777217 = 16777216
   \<and> shardSizeOf 16777217 (length [0, 1 :: nat]) = 8388608
   \<and> (16777217 + 2 - 1) div 2 = (8388609 :: nat)
   \<and> shardTable 16777217 [0, 1 :: nat] = [(0, 8388608), (8388608, 8388608)]
   \<and> sum_list (map snd (shardTable 16777217 [0, 1 :: nat])) = 16777216"
proof -
  have a: "f32_of_nat 16777217 = 16777216"
    by (simp add: f32_of_nat_def round_even_def Let_def)
  have b: "f32_of_nat 2 = 2"
    by (simp add: f32_of_nat_def round_even_def Let_def)
  have c: "f32_div 16777216 2 = 8388608"
    by (simp add: f32_div_def round_even_def Let_def)
  have s: "shardSizeOf 16777217 2 = 8388608"
    by (simp add: shardSizeOf_def a b c)
  have s': "shardSizeOf 16777217 (Suc (Suc 0)) = 8388608"
    using s by (simp add: numeral_2_eq_2)
  have t: "shardTable 16777217 [0, 1 :: nat] = [(0, 8388608), (8388608, 8388608)]"
    by (simp add: shardTable_def s' Let_def)
  show ?thesis
    using a s' t by simp
qed

subsection \<open>The moving average\<close>

lemma Element_length [simp]: "length (Element f a b) = length a"
  by (simp add: Element_def)

lemma Element_nth [simp]: "i < length a \<Longrightarrow> Element f a b ! i = f (a ! i) (b ! i)"
  by (simp add: Element_def)








lemma updateMovingAverage_length [simp]:
  "length (updateMovingAverage c avg p b) = length avg"
  by (simp add: updateMovingAverage_def Let_def)









subsection \<open>Fields that a phase leaves alone\<close>

lemma allocShards_frame [simp]:
  "movingAvg (allocShards v0 pos t ds st) = movingAvg st"
  "scheduler (allocShards v0 pos t ds st) = scheduler st"
  "devices (allocShards v0 pos t ds st) = devices st"
  "graphs (allocShards v0 pos t ds st) = graphs st"
  "paramsAvg (allocShards v0 pos t ds st) = paramsAvg st"
  "shardSize (allocShards v0 pos t ds st) = shardSize st"
  "mvDecay (allocShards v0 pos t ds st) = mvDecay st"
  "shardOpt (allocShards v0 pos t ds st) = shardOpt st"
  "options (allocShards v0 pos t ds st) = options st"
  "disk (allocShards v0 pos t ds st) = disk st"
  by (induction ds arbitrary: pos t st; simp add: Let_def)+

lemma allocAvg_frame [simp]:
  "movingAvg (allocAvg t i ds st) = movingAvg st"
  "scheduler (allocAvg t i ds st) = scheduler st"
  "devices (allocAvg t i ds st) = devices st"
  "graphs (allocAvg t i ds st) = graphs st"
  "params (allocAvg t i ds st) = params st"
  "grads (allocAvg t i ds st) = grads st"
  "tmpTensors (allocAvg t i ds st) = tmpTensors st"
  "shardSize (allocAvg t i ds st) = shardSize st"
  "mvDecay (allocAvg t i ds st) = mvDecay st"
  "shardOpt (allocAvg t i ds st) = shardOpt st"
  "options (allocAvg t i ds st) = options st"
  "disk (allocAvg t i ds st) = disk st"
  by (induction ds arbitrary: t i st; simp add: Let_def)+

lemma firstStep_frame [simp]:
  "movingAvg (firstStep E bs st) = movingAvg st"
  "scheduler (firstStep E bs st) = scheduler st"
  "devices (firstStep E bs st) = devices st"
  "mvDecay (firstStep E bs st) = mvDecay st"
  "shardOpt (firstStep E bs st) = shardOpt st"
  "options (firstStep E bs st) = options st"
  "disk (firstStep E bs st) = disk st"
  "first (firstStep E bs st) = False"
  by (simp_all add: firstStep_def Let_def)

lemma computePhase_frame [simp]:
  "movingAvg (snd (computePhase E bs st)) = movingAvg st"
  "scheduler (snd (computePhase E bs st)) = scheduler st"
  "devices (snd (computePhase E bs st)) = devices st"
  "params (snd (computePhase E bs st)) = params st"
  "grads (snd (computePhase E bs st)) = grads st"
  "tmpTensors (snd (computePhase E bs st)) = tmpTensors st"
  "paramsAvg (snd (computePhase E bs st)) = paramsAvg st"
  "shardSize (snd (computePhase E bs st)) = shardSize st"
  "mvDecay (snd (computePhase E bs st)) = mvDecay st"
  "shardOpt (snd (computePhase E bs st)) = shardOpt st"
  "options (snd (computePhase E bs st)) = options st"
  "disk (snd (computePhase E bs st)) = disk st"
  "first (snd (computePhase E bs st)) = first st"
  by (simp_all add: computePhase_def Let_def)

lemma reduceTask_null:
  "movingAvg st \<Longrightarrow> scheduler st = None \<Longrightarrow> reduceTask E bs idx pos st = Inl NullScheduler"
  by (simp add: reduceTask_def Let_def)

lemma reducePhase_null:
  "movingAvg st \<Longrightarrow> scheduler st = None \<Longrightarrow> devices st \<noteq> [] \<Longrightarrow>
   reducePhase E bs st = Inl NullScheduler"
  by (cases "length (devices st)") (simp_all add: reducePhase_def upt_rec reduceTask_null)

subsection \<open>Tensors, shards and phases\<close>

lemma copyTo_length [simp]: "length (copyTo pos src dst) = length dst"
  by (simp add: copyTo_def)

lemma copyTo_nth:
  "i < length dst \<Longrightarrow>
   copyTo pos src dst ! i = (if pos \<le> i \<and> i < pos + length src then src ! (i - pos) else dst ! i)"
  by (simp add: copyTo_def)

lemma copyFrom_length [simp]: "length (copyFrom src dst) = length dst"
  by (simp add: copyFrom_def)

lemma copyFrom_same_length: "length src = length dst \<Longrightarrow> copyFrom src dst = src"
  by (rule nth_equalityI) (simp_all add: copyFrom_def copyTo_nth)

lemma subtensor_length: "pos + sz \<le> length t \<Longrightarrow> length (subtensor pos sz t) = sz"
  by (simp add: subtensor_def)


lemma copyTo_append:
  "pos + length src \<le> length dst \<Longrightarrow>
   copyTo pos src dst = take pos dst @ src @ drop (pos + length src) dst"
  by (rule nth_equalityI) (auto simp: copyTo_nth nth_append)

text \<open>The replicas that the loop of lines 163--170 reads.\<close>

lemma accumulate_length:
  "length (fst bufs) = sz \<Longrightarrow> length (fst (accumulate E batches pos sz i gs bufs)) = sz"
  by (induction gs arbitrary: i bufs) (simp_all add: Let_def)





lemma offset_0 [simp]: "offset ps 0 = 0"
  by (simp add: offset_def)

lemma offset_Suc: "a < length ps \<Longrightarrow> offset ps (Suc a) = offset ps a + length (ps ! a)"
  by (simp add: offset_def take_Suc_conv_app_nth)

lemma offset_mono: "a \<le> b \<Longrightarrow> offset ps a \<le> offset ps b"
proof -
  assume "a \<le> b"
  then have "take b ps = take a ps @ take (b - a) (drop a ps)"
    by (metis le_add_diff_inverse take_add)
  then show ?thesis by (simp add: offset_def)
qed

lemma offset_cong:
  "map length ps' = map length ps \<Longrightarrow> offset ps' a = offset ps a"
proof -
  assume "map length ps' = map length ps"
  then have "map length (take a ps') = map length (take a ps)"
    by (simp add: take_map [symmetric])
  then show ?thesis by (simp add: offset_def length_concat)
qed

lemma map_length_update:
  "length y = length (xs ! i) \<Longrightarrow> map length (xs[i := y]) = map length xs"
proof (rule nth_equalityI)
  show "length (map length (xs[i := y])) = length (map length xs)" by simp
next
  fix k assume k: "k < length (map length (xs[i := y]))"
  assume len: "length y = length (xs ! i)"
  show "map length (xs[i := y]) ! k = map length xs ! k"
    using k len by (cases "k = i") simp_all
qed

lemma reduceTask_frame:
  assumes "reduceTask E bs idx pos st = Inr st'"
  shows "devices st' = devices st" "shardSize st' = shardSize st" "movingAvg st' = movingAvg st"
    "mvDecay st' = mvDecay st" "scheduler st' = scheduler st" "options st' = options st"
    "disk st' = disk st" "first st' = first st"
    "length (paramsAvg st') = length (paramsAvg st)"
    "length (params st') = length (params st)"
    "length (grads st') = length (grads st)"
    "length (tmpTensors st') = length (tmpTensors st)"
    "length (shardOpt st') = length (shardOpt st)"
    "map length (paramsAvg st') = map length (paramsAvg st)"
  using assms
  by (auto simp: reduceTask_def Let_def map_length_update
           split: if_splits option.splits)

lemma reduceTask_params:
  assumes "reduceTask E bs idx pos st = Inr st'"
  shows "params st' = (params st)[idx := fst (snd (opt_update E (shardOpt st ! idx) (params st ! idx)
           (fst (accumulate E bs pos (length (params st ! idx)) 0 (graphs st)
              (replicate (length (grads st ! idx)) 0, tmpTensors st ! idx)))))]"
    and "graphs st' = broadcast pos (params st' ! idx) (graphs st)"
  using assms
  by (auto simp: reduceTask_def Let_def split: if_splits option.splits)

lemma copyTo_take_drop:
  assumes "pos + length src \<le> n" "n \<le> length dst"
  shows "take (pos + length src) (copyTo pos src dst) = take pos dst @ src"
    and "drop n (copyTo pos src dst) = drop n dst"
proof -
  have c: "copyTo pos src dst = take pos dst @ src @ drop (pos + length src) dst"
    using assms by (intro copyTo_append) simp
  have l: "length (take pos dst) = pos" using assms by simp
  show "take (pos + length src) (copyTo pos src dst) = take pos dst @ src"
    unfolding c using l by simp
  show "drop n (copyTo pos src dst) = drop n dst"
  proof (rule nth_equalityI)
    show "length (drop n (copyTo pos src dst)) = length (drop n dst)" by simp
  next
    fix i assume "i < length (drop n (copyTo pos src dst))"
    then have "n + i < length dst" by simp
    then show "drop n (copyTo pos src dst) ! i = drop n dst ! i"
      using assms by (simp add: copyTo_nth)
  qed
qed

lemma reduceLoop_upt:
  assumes opt: "opt_in_place E"
  shows "reduceLoop E bs (offset (params st) a) [a..<b] st = Inr st' \<Longrightarrow>
     a \<le> b \<Longrightarrow> b \<le> length (params st) \<Longrightarrow>
     (\<forall>g \<in> set (graphs st). offset (params st) b \<le> length (vals g)) \<Longrightarrow>
     map length (params st') = map length (params st)
     \<and> take a (params st') = take a (params st)
     \<and> graphs st' =
         map (\<lambda>g. g\<lparr>vals := take (offset (params st) a) (vals g)
                            @ concat (map ((!) (params st')) [a..<b])
                            @ drop (offset (params st) b) (vals g)\<rparr>) (graphs st)"
proof (induction "b - a" arbitrary: a st)
  case 0
  then have "a = b" by simp
  then show ?case using 0 by (simp add: map_idI)
next
  case (Suc n)
  then have ab: "a < b" by simp
  then have upt: "[a..<b] = a # [Suc a..<b]" by (rule upt_conv_Cons)
  let ?pos = "offset (params st) a"
  obtain st1 where t: "reduceTask E bs a ?pos st = Inr st1"
    and l: "reduceLoop E bs (?pos + length (params st ! a)) [Suc a..<b] st1 = Inr st'"
    using Suc.prems(1) unfolding upt by (auto split: sum.splits)
  define p' where "p' = params st1 ! a"
  have a_len: "a < length (params st)" using ab Suc.prems(3) by simp
  have ps1: "params st1 = (params st)[a := p']" and len_p': "length p' = length (params st ! a)"
    using reduceTask_params(1) [OF t] opt a_len unfolding p'_def opt_in_place_def by simp_all
  have gs1: "graphs st1 = broadcast ?pos p' (graphs st)"
    using reduceTask_params(2) [OF t] unfolding p'_def .
  have ml1: "map length (params st1) = map length (params st)"
    unfolding ps1 using len_p' by (rule map_length_update)
  have off1: "offset (params st1) k = offset (params st) k" for k
    using ml1 by (rule offset_cong)
  have offS: "offset (params st) (Suc a) = ?pos + length (params st ! a)"
    using a_len by (rule offset_Suc)
  have offSb: "offset (params st) (Suc a) \<le> offset (params st) b"
    using ab by (intro offset_mono) simp
  have l': "reduceLoop E bs (offset (params st1) (Suc a)) [Suc a..<b] st1 = Inr st'"
    using l by (simp add: off1 offS)
  have bound1: "\<forall>g \<in> set (graphs st1). offset (params st1) b \<le> length (vals g)"
    using Suc.prems(4) by (auto simp: gs1 broadcast_def off1)
  have len1: "length (params st1) = length (params st)" by (simp add: ps1)
  have IH: "map length (params st') = map length (params st1)
     \<and> take (Suc a) (params st') = take (Suc a) (params st1)
     \<and> graphs st' =
         map (\<lambda>g. g\<lparr>vals := take (offset (params st1) (Suc a)) (vals g)
                            @ concat (map ((!) (params st')) [Suc a..<b])
                            @ drop (offset (params st1) b) (vals g)\<rparr>) (graphs st1)"
    by (rule Suc.hyps(1) [OF _ l']) (use Suc.hyps(2) ab Suc.prems(3) bound1 len1 in simp_all)
  have len': "length (params st') = length (params st)"
    using IH ml1 by (metis length_map)
  have nth_a: "params st' ! a = p'"
  proof -
    have "params st' ! a = take (Suc a) (params st') ! a" by simp
    also have "\<dots> = take (Suc a) (params st1) ! a" using IH by simp
    also have "\<dots> = p'" using a_len by (simp add: ps1)
    finally show ?thesis .
  qed
  have take_a: "take a (params st') = take a (params st)"
  proof -
    have "take a (params st') = take a (take (Suc a) (params st'))" by (simp add: min_def)
    also have "\<dots> = take a (take (Suc a) (params st1))" using IH by simp
    also have "\<dots> = take a (params st)" by (simp add: ps1 min_def)
    finally show ?thesis .
  qed
  have vals: "take (offset (params st) (Suc a)) (copyTo ?pos p' v)
                 @ concat (map ((!) (params st')) [Suc a..<b])
                 @ drop (offset (params st) b) (copyTo ?pos p' v)
              = take ?pos v @ concat (map ((!) (params st')) [a..<b]) @ drop (offset (params st) b) v"
    if v: "offset (params st) b \<le> length v" for v
  proof -
    have 1: "take (offset (params st) (Suc a)) (copyTo ?pos p' v) = take ?pos v @ p'"
      using copyTo_take_drop(1) [of ?pos p' "offset (params st) b" v] offSb v
      by (simp add: offS len_p')
    have 2: "drop (offset (params st) b) (copyTo ?pos p' v) = drop (offset (params st) b) v"
      using copyTo_take_drop(2) [of ?pos p' "offset (params st) b" v] offSb v
      by (simp add: offS len_p')
    show ?thesis unfolding 1 2 upt by (simp add: nth_a)
  qed
  have "graphs st' =
         map (\<lambda>g. g\<lparr>vals := take ?pos (vals g)
                            @ concat (map ((!) (params st')) [a..<b])
                            @ drop (offset (params st) b) (vals g)\<rparr>) (graphs st)"
    using IH Suc.prems(4) by (simp add: gs1 broadcast_def off1 vals)
  then show ?case using IH ml1 take_a by simp
qed

lemma copyTo_Nil [simp]: "copyTo pos [] dst = dst"
  by (rule nth_equalityI) (simp_all add: copyTo_nth)

lemma offset_closed:
  "shard_sizes S T ps \<Longrightarrow> a \<le> length ps \<Longrightarrow> offset ps a = min T (a * S)"
proof (induction a)
  case 0
  show ?case by simp
next
  case (Suc a)
  then have a: "a < length ps" by simp
  have "offset ps (Suc a) = offset ps a + length (ps ! a)" using a by (rule offset_Suc)
  also have "\<dots> = min T (a * S) + min S (T - a * S)"
    using Suc a by (simp add: shard_sizes_def)
  also have "\<dots> = min T (Suc a * S)" by (simp add: min_def) arith
  finally show ?case .
qed

lemma offset_le_total: "shard_sizes S T ps \<Longrightarrow> a \<le> length ps \<Longrightarrow> offset ps a \<le> T"
  by (simp add: offset_closed)

lemma fetch_position:
  assumes "shard_sizes S T ps" "a < length ps"
  shows "copyTo (a * S) (ps ! a) v = copyTo (offset ps a) (ps ! a) v"
proof (cases "a * S < T")
  case True
  then show ?thesis using assms by (simp add: offset_closed min_def)
next
  case False
  then have "T - a * S = 0" by simp
  moreover have "length (ps ! a) = min S (T - a * S)"
    using assms by (simp add: shard_sizes_def)
  ultimately have "ps ! a = []" by simp
  then show ?thesis by simp
qed

lemma fetchLoop_upt:
  assumes sz: "shard_sizes S T ps"
  shows "length v = T \<Longrightarrow> a \<le> b \<Longrightarrow> b \<le> length ps \<Longrightarrow>
     fetchLoop S (a * S) ps [a..<b] v =
     take (offset ps a) v @ concat (map ((!) ps) [a..<b]) @ drop (offset ps b) v"
proof (induction "b - a" arbitrary: a v)
  case 0
  then have "a = b" by simp
  then show ?case by simp
next
  case (Suc n)
  then have ab: "a < b" by simp
  then have upt: "[a..<b] = a # [Suc a..<b]" by (rule upt_conv_Cons)
  have a_len: "a < length ps" using ab Suc.prems(3) by simp
  define v1 where "v1 = copyTo (a * S) (ps ! a) v"
  have v1: "v1 = copyTo (offset ps a) (ps ! a) v"
    unfolding v1_def using sz a_len by (rule fetch_position)
  have lv1: "length v1 = T" using Suc.prems(1) by (simp add: v1_def)
  have offS: "offset ps (Suc a) = offset ps a + length (ps ! a)" using a_len by (rule offset_Suc)
  have offSb: "offset ps (Suc a) \<le> offset ps b" using ab by (intro offset_mono) simp
  have offb: "offset ps b \<le> length v"
    using offset_le_total [OF sz Suc.prems(3)] Suc.prems(1) by simp
  have "fetchLoop S (a * S) ps [a..<b] v = fetchLoop S (Suc a * S) ps [Suc a..<b] v1"
    unfolding upt by (simp add: v1_def add.commute)
  also have "\<dots> = take (offset ps (Suc a)) v1 @ concat (map ((!) ps) [Suc a..<b])
                    @ drop (offset ps b) v1"
    by (rule Suc.hyps(1)) (use Suc.hyps(2) ab Suc.prems(3) lv1 in simp_all)
  also have "take (offset ps (Suc a)) v1 = take (offset ps a) v @ ps ! a"
    unfolding v1 offS using copyTo_take_drop(1) [of "offset ps a" "ps ! a" "offset ps b" v] offSb offb
    by (simp add: offS)
  also have "drop (offset ps b) v1 = drop (offset ps b) v"
    unfolding v1 using copyTo_take_drop(2) [of "offset ps a" "ps ! a" "offset ps b" v] offSb offb
    by (simp add: offS)
  finally show ?case unfolding upt by simp
qed

lemma offset_all: "offset ps (length ps) = length (concat ps)"
  by (simp add: offset_def)

lemma fetchLoop_all:
  assumes "shard_sizes S T ps" "length v = T"
  shows "fetchLoop S 0 ps [0..<length ps] v = concat ps @ drop (length (concat ps)) v"
  using fetchLoop_upt [OF assms(1), of v 0 "length ps"] assms(2)
  by (simp add: map_nth offset_all)

lemma initGraphs_aux:
  assumes sz: "same_size E T"
  shows "k \<le> length gs \<Longrightarrow>
     length (foldl (initGraph E b) gs [0..<k]) = length gs
     \<and> (\<forall>i < k. vals (foldl (initGraph E b) gs [0..<k] ! i) = vals (build_forward E 0 b (gs ! 0)))
     \<and> (\<forall>i. k \<le> i \<longrightarrow> foldl (initGraph E b) gs [0..<k] ! i = gs ! i)"
proof (induction k)
  case 0
  show ?case by simp
next
  case (Suc k)
  define P where "P = foldl (initGraph E b) gs [0..<k]"
  define v0 where "v0 = vals (build_forward E 0 b (gs ! 0))"
  have IH: "length P = length gs" "\<forall>i < k. vals (P ! i) = v0" "\<forall>i. k \<le> i \<longrightarrow> P ! i = gs ! i"
    using Suc unfolding P_def v0_def by simp_all
  have k: "k < length P" using Suc.prems IH(1) by simp
  have step: "foldl (initGraph E b) gs [0..<Suc k] = initGraph E b P k"
    by (simp add: P_def)
  have lenT: "length (vals (build_forward E k b (P ! k))) = T" "length v0 = T"
    using sz unfolding same_size_def v0_def by simp_all
  have new: "vals (initGraph E b P k ! k) = v0"
  proof (cases "k = 0")
    case True
    then show ?thesis using k IH(3) by (simp add: initGraph_def v0_def)
  next
    case False
    then have "vals (P ! 0) = v0" using IH(2) by simp
    then show ?thesis using False k lenT
      by (simp add: initGraph_def Let_def copyFrom_same_length)
  qed
  have others: "i \<noteq> k \<Longrightarrow> initGraph E b P k ! i = P ! i" for i
    by (simp add: initGraph_def Let_def)
  have len: "length (initGraph E b P k) = length gs"
    using IH(1) by (simp add: initGraph_def Let_def)
  have "\<forall>i < Suc k. vals (initGraph E b P k ! i) = v0"
  proof (intro allI impI)
    fix i assume "i < Suc k"
    then show "vals (initGraph E b P k ! i) = v0"
      using new others [of i] IH(2) by (cases "i = k") simp_all
  qed
  moreover have "\<forall>i. Suc k \<le> i \<longrightarrow> initGraph E b P k ! i = gs ! i"
    using others IH(3) by simp
  ultimately show ?case unfolding step v0_def using len by simp
qed

lemma initGraphs_identical:
  assumes "same_size E T" "gs \<noteq> []"
  shows "length (initGraphs E b gs) = length gs"
    and "replicas_identical (initGraphs E b gs)"
    and "length (vals (initGraphs E b gs ! 0)) = T"
proof -
  note a = initGraphs_aux [OF assms(1), of "length gs" gs b, simplified]
  show "length (initGraphs E b gs) = length gs" using a by (simp add: initGraphs_def)
  have z: "0 < length gs" using assms(2) by simp
  show "replicas_identical (initGraphs E b gs)"
    unfolding replicas_identical_def initGraphs_def using a z
    by (auto simp: in_set_conv_nth)
  show "length (vals (initGraphs E b gs ! 0)) = T"
    using a z assms(1) unfolding initGraphs_def same_size_def by simp
qed

lemma min_shift:
  fixes X :: nat
  shows "pos + min S t + min (t - min S t) X = pos + min t (S + X)"
    and "min S (t - min S t - X) = min S (t - (S + X))"
  by (auto simp: min_def)

lemma shardRanges_nth:
  "k < length ds \<Longrightarrow> shardRanges S pos t ds ! k = (pos + min t (k * S), min S (t - k * S))"
proof (induction ds arbitrary: pos t k)
  case Nil
  then show ?case by simp
next
  case (Cons d ds)
  show ?case
  proof (cases k)
    case 0
    then show ?thesis by (simp add: Let_def)
  next
    case (Suc j)
    then have j: "j < length ds" using Cons.prems by simp
    have "pos + min S t + min (t - min S t) (j * S) = pos + min t (S + j * S)"
      by (rule min_shift)
    moreover have "min S (t - min S t - j * S) = min S (t - (S + j * S))"
      by (rule min_shift)
    ultimately show ?thesis using Suc Cons.IH [OF j] by (simp add: Let_def)
  qed
qed

lemma allocShards_lists:
  "params (allocShards v0 pos t ds st) =
     params st @ map (\<lambda>r. copyFrom (subtensor (fst r) (snd r) v0) (replicate (snd r) 0))
                   (shardRanges (shardSize st) pos t ds)"
  "grads (allocShards v0 pos t ds st) =
     grads st @ map (\<lambda>r. replicate (snd r) 0) (shardRanges (shardSize st) pos t ds)"
  "tmpTensors (allocShards v0 pos t ds st) =
     tmpTensors st @ map (\<lambda>r. replicate (snd r) 0) (shardRanges (shardSize st) pos t ds)"
  by (induction ds arbitrary: pos t st; simp add: Let_def)+

lemma allocAvg_copy:
  "\<forall>k < length ds. length (params st ! (i + k)) = snd (shardRanges (shardSize st) pos t ds ! k) \<Longrightarrow>
   paramsAvg (allocAvg t i ds st) = paramsAvg st @ map (\<lambda>k. params st ! (i + k)) [0..<length ds]"
proof (induction ds arbitrary: t i st pos)
  case Nil
  show ?case by simp
next
  case (Cons d ds)
  define sz where "sz = min (shardSize st) t"
  define st1 where "st1 = st\<lparr>paramsAvg := paramsAvg st @ [copyFrom (params st ! i) (replicate sz 0)]\<rparr>"
  have hd: "length (params st ! i) = sz"
    using Cons.prems [rule_format, of 0] by (simp add: sz_def Let_def)
  have rest: "\<forall>k < length ds. length (params st1 ! (i + 1 + k))
                = snd (shardRanges (shardSize st1) (pos + sz) (t - sz) ds ! k)"
  proof (intro allI impI)
    fix k assume "k < length ds"
    then show "length (params st1 ! (i + 1 + k))
                = snd (shardRanges (shardSize st1) (pos + sz) (t - sz) ds ! k)"
      using Cons.prems [rule_format, of "Suc k"] by (simp add: st1_def sz_def Let_def)
  qed
  have "paramsAvg (allocAvg t i (d # ds) st) = paramsAvg (allocAvg (t - sz) (i + 1) ds st1)"
    by (simp add: Let_def sz_def st1_def)
  also have "\<dots> = paramsAvg st1 @ map (\<lambda>k. params st1 ! (i + 1 + k)) [0..<length ds]"
    using rest by (rule Cons.IH)
  also have "\<dots> = paramsAvg st @ map (\<lambda>k. params st ! (i + k)) [0..<length (d # ds)]"
    using hd by (simp add: st1_def copyFrom_same_length map_upt_Suc del: upt_Suc)
  finally show ?case .
qed

lemma min_range:
  fixes X :: nat
  shows "min T X + min S (T - X) \<le> T"
  by (auto simp: min_def)

lemma take_offset_subtensors:
  assumes "\<forall>k < length ps. ps ! k = subtensor (offset ps k) (length (ps ! k)) v"
  shows "a \<le> length ps \<Longrightarrow> offset ps a \<le> length v \<Longrightarrow> take (offset ps a) v = concat (take a ps)"
proof (induction a)
  case 0
  show ?case by simp
next
  case (Suc a)
  then have a: "a < length ps" by simp
  have offS: "offset ps (Suc a) = offset ps a + length (ps ! a)" using a by (rule offset_Suc)
  have "take (offset ps (Suc a)) v = take (offset ps a) v @ take (length (ps ! a)) (drop (offset ps a) v)"
    unfolding offS by (rule take_add)
  also have "take (length (ps ! a)) (drop (offset ps a) v) = ps ! a"
    using assms a by (simp add: subtensor_def)
  also have "take (offset ps a) v = concat (take a ps)"
    using Suc offS by simp
  finally show ?case using a by (simp add: take_Suc_conv_app_nth)
qed

lemma firstStep_shards:
  fixes E :: "('b, 'o, 's) env" and bs :: "'b list" and st :: "('o, 's) state"
  assumes "fresh st" "same_size E T"
  defines "st' \<equiv> firstStep E bs st"
  defines "S \<equiv> shardSizeOf T (length (devices st))"
  shows "graphs st' = initGraphs E (bs ! 0) (graphs st)"
    and "shardSize st' = S"
    and "params st' = map (\<lambda>r. subtensor (fst r) (snd r) (vals (graphs st' ! 0)))
                         (shardRanges S 0 T (devices st))"
    and "grads st' = map (\<lambda>r. replicate (snd r) 0) (shardRanges S 0 T (devices st))"
    and "tmpTensors st' = map (\<lambda>r. replicate (snd r) 0) (shardRanges S 0 T (devices st))"
    and "movingAvg st \<Longrightarrow> paramsAvg st' = params st'"
    and "\<not> movingAvg st \<Longrightarrow> paramsAvg st' = []"
proof -
  define gs where "gs = initGraphs E (bs ! 0) (graphs st)"
  define v0 where "v0 = vals (gs ! 0)"
  have ne: "graphs st \<noteq> []" using assms(1) by (auto simp: fresh_def)
  have T: "length v0 = T"
    unfolding v0_def gs_def using initGraphs_identical(3) [OF assms(2) ne] .
  define st1 where "st1 = st\<lparr>graphs := gs\<rparr>"
  define st2 where "st2 = allocShards v0 0 (length v0) (devices st1)
                        (st1\<lparr>shardSize := shardSizeOf (length v0) (length (devices st1))\<rparr>)"
  define st3 where "st3 = (if movingAvg st2 then allocAvg (length v0) 0 (devices st2) st2 else st2)"
  have fs: "st' = st3\<lparr>first := False\<rparr>"
    using assms(1)
    by (simp add: st'_def firstStep_def Let_def st3_def st2_def st1_def v0_def gs_def fresh_def)
  have ranges: "shardRanges S 0 T (devices st) ! k = (min T (k * S), min S (T - k * S))"
    if "k < length (devices st)" for k
    using shardRanges_nth [OF that, of S 0 T] by simp
  have sub: "copyFrom (subtensor (fst r) (snd r) v0) (replicate (snd r) 0) = subtensor (fst r) (snd r) v0"
    if r: "r \<in> set (shardRanges S 0 T (devices st))" for r
  proof -
    obtain k where k: "k < length (devices st)" "r = shardRanges S 0 T (devices st) ! k"
      using r by (auto simp: in_set_conv_nth)
    have "fst r + snd r \<le> length v0"
      unfolding k(2) ranges [OF k(1)] T fst_conv snd_conv by (rule min_range)
    then show ?thesis by (simp add: copyFrom_same_length subtensor_length)
  qed
  have p2: "params st2 = map (\<lambda>r. subtensor (fst r) (snd r) v0) (shardRanges S 0 T (devices st))"
    using assms(1) sub by (simp add: st2_def allocShards_lists st1_def T S_def fresh_def)
  have g2: "grads st2 = map (\<lambda>r. replicate (snd r) 0) (shardRanges S 0 T (devices st))"
    and t2: "tmpTensors st2 = map (\<lambda>r. replicate (snd r) 0) (shardRanges S 0 T (devices st))"
    using assms(1) by (simp_all add: st2_def allocShards_lists st1_def T S_def fresh_def)
  have s2: "shardSize st2 = S" "devices st2 = devices st" "graphs st2 = gs" "paramsAvg st2 = []"
    "movingAvg st2 = movingAvg st"
    using assms(1) by (simp_all add: st2_def st1_def T S_def fresh_def)
  show "graphs st' = initGraphs E (bs ! 0) (graphs st)"
    unfolding fs st3_def using s2 by (simp add: gs_def)
  then have v0': "vals (graphs st' ! 0) = v0" by (simp add: v0_def gs_def)
  show "shardSize st' = S" unfolding fs st3_def using s2 by simp
  show "params st' = map (\<lambda>r. subtensor (fst r) (snd r) (vals (graphs st' ! 0)))
                         (shardRanges S 0 T (devices st))"
    unfolding v0' unfolding fs st3_def using p2 by simp
  show "grads st' = map (\<lambda>r. replicate (snd r) 0) (shardRanges S 0 T (devices st))"
    unfolding fs st3_def using g2 by simp
  show "tmpTensors st' = map (\<lambda>r. replicate (snd r) 0) (shardRanges S 0 T (devices st))"
    unfolding fs st3_def using t2 by simp
  show "\<not> movingAvg st \<Longrightarrow> paramsAvg st' = []"
    unfolding fs st3_def using s2 by simp
  show "paramsAvg st' = params st'" if "movingAvg st"
  proof -
    have plen: "length (params st2 ! k) = min S (T - k * S)" if k: "k < length (devices st)" for k
    proof -
      have "params st2 ! k = subtensor (min T (k * S)) (min S (T - k * S)) v0"
        unfolding p2 using k ranges [OF k] by simp
      moreover have "min T (k * S) + min S (T - k * S) \<le> length v0"
        unfolding T by (rule min_range)
      ultimately show ?thesis by (simp add: subtensor_length)
    qed
    have len: "\<forall>k < length (devices st2). length (params st2 ! (0 + k))
                 = snd (shardRanges (shardSize st2) 0 (length v0) (devices st2) ! k)"
      unfolding s2 T using ranges plen by simp
    have "paramsAvg (allocAvg (length v0) 0 (devices st2) st2)
            = paramsAvg st2 @ map (\<lambda>k. params st2 ! (0 + k)) [0..<length (devices st2)]"
      using len by (rule allocAvg_copy)
    also have "\<dots> = params st2"
    proof -
      have "length (params st2) = length (devices st)" by (simp add: p2)
      then have "map ((!) (params st2)) [0..<length (devices st)] = params st2"
        using map_nth [of "params st2"] by simp
      then show ?thesis using s2 by simp
    qed
    finally show ?thesis unfolding fs st3_def using that s2 by simp
  qed
qed

lemma map_update_same:
  "f y = f (xs ! i) \<Longrightarrow> map f (xs[i := y]) = map f xs"
proof (rule nth_equalityI)
  show "length (map f (xs[i := y])) = length (map f xs)" by simp
next
  fix k assume k: "k < length (map f (xs[i := y]))"
  assume eq: "f y = f (xs ! i)"
  show "map f (xs[i := y]) ! k = map f xs ! k"
    using k eq by (cases "k = i") simp_all
qed

lemma replicas_identical_nth:
  "replicas_identical gs = (\<forall>i < length gs. vals (gs ! i) = vals (gs ! 0))"
  unfolding replicas_identical_def all_set_conv_all_nth ..

lemma replicas_identical_cong:
  assumes "map vals gs' = map vals gs"
  shows "replicas_identical gs' = replicas_identical gs"
proof -
  have len: "length gs' = length gs" using assms by (rule map_eq_imp_length_eq)
  have nth: "vals (gs' ! i) = vals (gs ! i)" if i: "i < length gs" for i
  proof -
    have "map vals gs' ! i = map vals gs ! i" using assms by simp
    then show ?thesis using i len by simp
  qed
  show ?thesis
  proof (cases "gs = []")
    case True
    then show ?thesis using len by (simp add: replicas_identical_def)
  next
    case False
    then have "0 < length gs" by simp
    then show ?thesis
      unfolding replicas_identical_nth len using nth by simp
  qed
qed

lemma shard_sizes_cong:
  "map length ps' = map length ps \<Longrightarrow> shard_sizes S T ps' = shard_sizes S T ps"
proof -
  assume eq: "map length ps' = map length ps"
  have len: "length ps' = length ps" using eq by (rule map_eq_imp_length_eq)
  have nth: "length (ps' ! k) = length (ps ! k)" if k: "k < length ps" for k
  proof -
    have "map length ps' ! k = map length ps ! k" using eq by simp
    then show ?thesis using k len by simp
  qed
  show ?thesis unfolding shard_sizes_def len using nth by simp
qed

lemma concat_length_cong:
  "map length ps' = map length ps \<Longrightarrow> length (concat ps') = length (concat ps)"
  by (simp add: length_concat)

lemma firstStep_synchronized:
  fixes E :: "('b, 'o, 's) env" and bs :: "'b list" and st :: "('o, 's) state"
  assumes fr: "fresh st" and sz: "same_size E T"
  shows "synchronized (firstStep E bs st)"
proof -
  define st' where "st' = firstStep E bs st"
  define S where "S = shardSizeOf T (length (devices st))"
  define v0 where "v0 = vals (graphs st' ! 0)"
  define N where "N = length (devices st)"
  note sh = firstStep_shards [OF fr sz, of bs, folded st'_def S_def]
  have ne: "graphs st \<noteq> []" "devices st \<noteq> []" "length (graphs st) = N"
    using fr by (auto simp: fresh_def N_def)
  note ig = initGraphs_identical [OF sz ne(1), of "bs ! 0", folded sh(1)]
  have T: "length v0 = T" unfolding v0_def using ig(3) .
  have ranges: "shardRanges S 0 T (devices st) ! k = (min T (k * S), min S (T - k * S))"
    if "k < N" for k
    using shardRanges_nth [of k "devices st" S 0 T] that by (simp add: N_def)
  have pk: "params st' ! k = subtensor (min T (k * S)) (min S (T - k * S)) v0" if "k < N" for k
    using that ranges [OF that] by (simp add: sh(3) N_def v0_def)
  have lp: "length (params st') = N" by (simp add: sh(3) N_def)
  have plen: "length (params st' ! k) = min S (T - k * S)" if "k < N" for k
  proof -
    have "min T (k * S) + min S (T - k * S) \<le> length v0" unfolding T by (rule min_range)
    then show ?thesis unfolding pk [OF that] by (simp add: subtensor_length)
  qed
  have ss: "shard_sizes S T (params st')"
    unfolding shard_sizes_def lp using plen by simp
  have mlg: "map length (grads st') = map length (params st')"
    by (rule nth_equalityI) (use plen ranges in \<open>simp_all add: sh(3,4) N_def\<close>)
  have mlt: "map length (tmpTensors st') = map length (params st')"
    by (rule nth_equalityI) (use plen ranges in \<open>simp_all add: sh(3,5) N_def\<close>)
  have sub: "\<forall>k < length (params st').
               params st' ! k = subtensor (offset (params st') k) (length (params st' ! k)) v0"
    using pk plen offset_closed [OF ss] by (simp add: lp)
  have offN: "offset (params st') (length (params st')) \<le> length v0"
    unfolding T using ss by (rule offset_le_total) simp
  have "take (offset (params st') (length (params st'))) v0
          = concat (take (length (params st')) (params st'))"
    using sub _ offN by (rule take_offset_subtensors) simp
  then have pre: "take (length (concat (params st'))) v0 = concat (params st')"
    by (simp add: offset_all)
  have fr': "\<not> first st'" "devices st' = devices st" "movingAvg st' = movingAvg st"
    by (simp_all add: st'_def)
  have lg: "length (graphs st') = length (devices st')"
    using ig(1) ne(3) fr'(2) by (simp add: N_def)
  have lp': "length (params st') = length (devices st')"
    using lp fr'(2) by (simp add: N_def)
  have ss': "shard_sizes (shardSize st') (length (vals (graphs st' ! 0))) (params st')"
    using ss T sh(2) by (simp add: v0_def)
  have avg: "movingAvg st' \<longrightarrow> map length (paramsAvg st') = map length (params st')"
    using sh(6) fr'(3) by simp
  have pre': "take (length (concat (params st'))) (vals (graphs st' ! 0)) = concat (params st')"
    using pre by (simp add: v0_def)
  have "synchronized st'"
    unfolding synchronized_def
    using fr'(1) ne(2) fr'(2) lg lp' ss' mlg mlt avg ig(2) pre' by simp
  then show ?thesis by (simp add: st'_def)
qed

lemma computeTask_vals: "map vals (snd (computeTask E bs cg idx)) = map vals (snd cg)"
  by (simp add: computeTask_def Let_def map_update_same)

lemma foldl_computeTask_vals:
  "map vals (snd (foldl (computeTask E bs) cg idxs)) = map vals (snd cg)"
  by (induction idxs arbitrary: cg) (simp_all add: computeTask_vals)

lemma computePhase_vals:
  "map vals (graphs (snd (computePhase E bs st))) = map vals (graphs st)"
  by (simp add: computePhase_def Let_def foldl_computeTask_vals)

lemma map_vals_nth:
  "map vals gs' = map vals gs \<Longrightarrow> i < length gs \<Longrightarrow> vals (gs' ! i) = vals (gs ! i)"
proof -
  assume eq: "map vals gs' = map vals gs" and i: "i < length gs"
  have len: "length gs' = length gs" using eq by (rule map_eq_imp_length_eq)
  have "map vals gs' ! i = map vals gs ! i" using eq by simp
  then show ?thesis using i len by simp
qed

lemma computePhase_synchronized:
  assumes "synchronized st"
  shows "synchronized (snd (computePhase E bs st))"
proof -
  define st' where "st' = snd (computePhase E bs st)"
  have mv: "map vals (graphs st') = map vals (graphs st)"
    unfolding st'_def by (rule computePhase_vals)
  have len: "length (graphs st') = length (graphs st)" using mv by (rule map_eq_imp_length_eq)
  have pos: "0 < length (graphs st)" using assms by (simp add: synchronized_def)
  have v0: "vals (graphs st' ! 0) = vals (graphs st ! 0)" using mv pos by (rule map_vals_nth)
  have ri: "replicas_identical (graphs st') = replicas_identical (graphs st)"
    using mv by (rule replicas_identical_cong)
  have "synchronized st'"
    using assms unfolding synchronized_def v0 ri len by (simp add: st'_def)
  then show ?thesis by (simp add: st'_def)
qed

lemma accumulate_lengths:
  "length (fst (accumulate E bs pos sz i gs bufs)) = length (fst bufs)"
  "length (snd (accumulate E bs pos sz i gs bufs)) = length (snd bufs)"
  by (induction gs arbitrary: i bufs; simp add: Let_def)+

lemma reduceTask_lengths:
  assumes "opt_in_place E" "reduceTask E bs idx pos st = Inr st'"
  shows "map length (params st') = map length (params st)"
    and "map length (grads st') = map length (grads st)"
    and "map length (tmpTensors st') = map length (tmpTensors st)"
  using assms
  by (auto simp: reduceTask_def Let_def opt_in_place_def map_update_same accumulate_lengths
           split: if_splits option.splits)

lemma reduceLoop_frame:
  assumes "opt_in_place E"
  shows "reduceLoop E bs pos idxs st = Inr st' \<Longrightarrow>
     devices st' = devices st \<and> shardSize st' = shardSize st \<and> movingAvg st' = movingAvg st
     \<and> mvDecay st' = mvDecay st \<and> scheduler st' = scheduler st \<and> options st' = options st
     \<and> disk st' = disk st \<and> first st' = first st
     \<and> map length (paramsAvg st') = map length (paramsAvg st)
     \<and> map length (grads st') = map length (grads st)
     \<and> map length (tmpTensors st') = map length (tmpTensors st)"
proof (induction idxs arbitrary: pos st)
  case Nil
  then show ?case by simp
next
  case (Cons idx idxs)
  obtain st1 where t: "reduceTask E bs idx pos st = Inr st1"
    and l: "reduceLoop E bs (pos + length (params st ! idx)) idxs st1 = Inr st'"
    using Cons.prems by (auto split: sum.splits)
  note f = reduceTask_frame [OF t] reduceTask_lengths [OF assms t]
  show ?case using Cons.IH [OF l] f by simp
qed

lemma reducePhase_graphs:
  assumes opt: "opt_in_place E" and sy: "synchronized st"
    and r: "reducePhase E bs st = Inr st'"
  shows "map length (params st') = map length (params st)"
    and "graphs st' =
         map (\<lambda>g. g\<lparr>vals := concat (params st')
                            @ drop (length (concat (params st'))) (vals g)\<rparr>) (graphs st)"
proof -
  define N where "N = length (devices st)"
  define T where "T = length (vals (graphs st ! 0))"
  have lp: "length (params st) = N" and ss: "shard_sizes (shardSize st) T (params st)"
    and ri: "replicas_identical (graphs st)"
    using sy by (simp_all add: synchronized_def N_def T_def)
  have bound: "\<forall>g \<in> set (graphs st). offset (params st) N \<le> length (vals g)"
  proof
    fix g assume "g \<in> set (graphs st)"
    then have "vals g = vals (graphs st ! 0)" using ri by (simp add: replicas_identical_def)
    then show "offset (params st) N \<le> length (vals g)"
      using offset_le_total [OF ss, of N] lp by (simp add: T_def)
  qed
  have loop: "reduceLoop E bs (offset (params st) 0) [0..<N] st = Inr st'"
    using r by (simp add: reducePhase_def N_def)
  note res = reduceLoop_upt [OF opt loop _ _ bound, simplified lp, simplified]
  show ml: "map length (params st') = map length (params st)" using res by simp
  have lp': "length (params st') = N" using map_eq_imp_length_eq [OF ml] lp by simp
  have cc: "map ((!) (params st')) [0..<N] = params st'"
    using map_nth [of "params st'"] lp' by simp
  have off: "offset (params st) N = length (concat (params st'))"
    using offset_cong [OF ml, of N] lp' by (simp add: offset_def)
  show "graphs st' =
         map (\<lambda>g. g\<lparr>vals := concat (params st')
                            @ drop (length (concat (params st'))) (vals g)\<rparr>) (graphs st)"
    using res by (simp add: cc off)
qed

lemma reducePhase_synchronized:
  assumes opt: "opt_in_place E" and sy: "synchronized st"
    and r: "reducePhase E bs st = Inr st'"
  shows "synchronized st'"
proof -
  note g = reducePhase_graphs [OF opt sy r]
  have f: "devices st' = devices st" "shardSize st' = shardSize st" "movingAvg st' = movingAvg st"
    "first st' = first st" "map length (paramsAvg st') = map length (paramsAvg st)"
    "map length (grads st') = map length (grads st)"
    "map length (tmpTensors st') = map length (tmpTensors st)"
    using reduceLoop_frame [OF opt, of bs 0 "[0..<length (devices st)]" st st'] r
    by (simp_all add: reducePhase_def)
  define c where "c = concat (params st')"
  have lc: "length c = length (concat (params st))"
    unfolding c_def using g(1) by (rule concat_length_cong)
  have pre: "take (length (concat (params st))) (vals (graphs st ! 0)) = concat (params st)"
    and ri: "replicas_identical (graphs st)" and pos: "0 < length (graphs st)"
    using sy by (simp_all add: synchronized_def)
  have le: "length (concat (params st)) \<le> length (vals (graphs st ! 0))"
  proof -
    have "length (take (length (concat (params st))) (vals (graphs st ! 0)))
            = length (concat (params st))"
      using pre by simp
    then show ?thesis by simp
  qed
  have v0: "vals (graphs st' ! 0) = c @ drop (length c) (vals (graphs st ! 0))"
    using pos by (simp add: g(2) c_def)
  have lv0: "length (vals (graphs st' ! 0)) = length (vals (graphs st ! 0))"
    unfolding v0 using le lc by simp
  have ri': "replicas_identical (graphs st')"
    unfolding replicas_identical_def
  proof
    fix g' assume "g' \<in> set (graphs st')"
    then obtain g where g: "g \<in> set (graphs st)"
      and g': "g' = g\<lparr>vals := c @ drop (length c) (vals g)\<rparr>"
      unfolding g(2) c_def by (auto simp: image_iff)
    have "vals g = vals (graphs st ! 0)" using ri g by (simp add: replicas_identical_def)
    then show "vals g' = vals (graphs st' ! 0)" unfolding v0 g' by simp
  qed
  have lp: "length (params st') = length (params st)" using g(1) by (rule map_eq_imp_length_eq)
  have ss: "shard_sizes S T (params st') = shard_sizes S T (params st)" for S T
    using g(1) by (rule shard_sizes_cong)
  have pre': "take (length (concat (params st'))) (vals (graphs st' ! 0)) = concat (params st')"
    unfolding v0 by (simp add: c_def)
  have lg: "length (graphs st') = length (graphs st)" by (simp add: g(2))
  show ?thesis
    using sy unfolding synchronized_def f lv0 lp ss lg g(1)
    using ri' pre' by simp
qed

subsection \<open>Gradient accumulation\<close>

lemma upt_3: "[0..<3] = [0, 1, 2]"
  by code_simp

lemma example_batches: "batch_split (exampleEnv a b c) 2 3 = [1, 1, 0]"
  by (simp add: exampleEnv_def upt_3)

lemma example_batch_size [simp]: "batch_size (exampleEnv a b c) = (\<lambda>b. b)"
  by (simp add: exampleEnv_def)



subsection \<open>A step without a scheduler\<close>

text \<open>
  C10 (without a scheduler \<open>update\<close> completes the step, also with the moving average):
  with the moving average enabled, line 176 reads \<^verbatim>\<open>scheduler_->numberOfBatches()\<close> in the
  task of the first shard without the test \<^verbatim>\<open>if(scheduler_)\<close> of line 197, and the step
  ends in the dereference of the null pointer.
\<close>

theorem execute_null_scheduler:
  "movingAvg st \<Longrightarrow> scheduler st = None \<Longrightarrow> devices st \<noteq> [] \<Longrightarrow>
   execute E batch st = Inl NullScheduler"
  by (simp add: execute_def Let_def reducePhase_null)

theorem execute_null_scheduler_witness:
  "movingAvg (exampleGroup [0, 1] True) \<and> scheduler (exampleGroup [0, 1] True) = None
   \<and> devices (exampleGroup [0, 1] True) \<noteq> []
   \<and> execute (exampleEnv False False False) 2 (exampleGroup [0, 1] True) = Inl NullScheduler"
  using execute_null_scheduler
          [of "exampleGroup [0, 1] True" "exampleEnv False False False" 2]
  by (simp add: exampleGroup_def SyncGraphGroup_def)

subsection \<open>Fetching, saving and the whole step\<close>

lemma synchronized_frame [simp]:
  "synchronized (st\<lparr>disk := d\<rparr>) = synchronized st"
  "synchronized (st\<lparr>scheduler := s\<rparr>) = synchronized st"
  by (simp_all add: synchronized_def)

lemma fetchParams_shards:
  assumes "shard_sizes (shardSize st) (length v) shards" "length shards = length (devices st)"
  shows "fetchParams st v shards = Inr (concat shards @ drop (length (concat shards)) v)"
  using fetchLoop_all [OF assms(1) refl] assms(2) by (simp add: fetchParams_def)

lemma synchronized_vals:
  "synchronized st \<Longrightarrow> idx < length (graphs st) \<Longrightarrow> vals (graphs st ! idx) = vals (graphs st ! 0)"
  unfolding synchronized_def replicas_identical_nth by blast

lemma fetch_shadow:
  assumes sy: "synchronized st" and ma: "movingAvg st" and idx: "idx < length (graphs st)"
  shows "fetchInto idx (paramsAvg st) st =
         Inr (st\<lparr>graphs := (graphs st)[idx := (graphs st ! idx)\<lparr>vals :=
                concat (paramsAvg st) @ drop (length (concat (params st))) (vals (graphs st ! 0))\<rparr>]\<rparr>)"
proof -
  have ml: "map length (paramsAvg st) = map length (params st)"
    using sy ma by (simp add: synchronized_def)
  have v: "vals (graphs st ! idx) = vals (graphs st ! 0)" using sy idx by (rule synchronized_vals)
  have ss: "shard_sizes (shardSize st) (length (vals (graphs st ! 0))) (paramsAvg st)"
    using sy shard_sizes_cong [OF ml] by (simp add: synchronized_def)
  have len: "length (paramsAvg st) = length (devices st)"
    using sy map_eq_imp_length_eq [OF ml] by (simp add: synchronized_def)
  have "fetchParams st (vals (graphs st ! 0)) (paramsAvg st) =
        Inr (concat (paramsAvg st) @ drop (length (concat (paramsAvg st))) (vals (graphs st ! 0)))"
    using ss len by (rule fetchParams_shards)
  then show ?thesis
    by (simp add: fetchInto_def v concat_length_cong [OF ml])
qed

lemma fetch_live:
  assumes sy: "synchronized st" and idx: "idx < length (graphs st)"
    and c: "length c = length (concat (params st))"
    and st1: "devices st1 = devices st" "shardSize st1 = shardSize st" "params st1 = params st"
      "graphs st1 = (graphs st)[idx := (graphs st ! idx)\<lparr>vals :=
                c @ drop (length (concat (params st))) (vals (graphs st ! 0))\<rparr>]"
  shows "fetchInto idx (params st1) st1 = Inr (st1\<lparr>graphs := graphs st\<rparr>)"
proof -
  define v where "v = vals (graphs st ! 0)"
  define n where "n = length (concat (params st))"
  define w where "w = c @ drop n v"
  have pre: "take n v = concat (params st)" and lp: "length (params st) = length (devices st)"
    and ss: "shard_sizes (shardSize st) (length v) (params st)"
    using sy by (simp_all add: synchronized_def v_def n_def)
  have nv: "n \<le> length v"
  proof -
    have "length (take n v) = n" using pre by (simp add: n_def)
    then show ?thesis by simp
  qed
  have lw: "length w = length v" using c nv by (simp add: w_def n_def)
  have vi: "vals (graphs st ! idx) = v" using sy idx unfolding v_def by (rule synchronized_vals)
  have g1: "vals (graphs st1 ! idx) = w" using idx by (simp add: st1(4) w_def v_def n_def)
  have "fetchParams st1 w (params st1) =
        Inr (concat (params st1) @ drop (length (concat (params st1))) w)"
    by (rule fetchParams_shards) (use ss lp in \<open>simp_all add: st1 lw\<close>)
  also have "concat (params st1) @ drop (length (concat (params st1))) w = take n v @ drop n v"
    using c by (simp add: st1 w_def n_def [symmetric] pre)
  also have "\<dots> = v" by simp
  finally have f: "fetchParams st1 w (params st1) = Inr v" .
  have "(graphs st1)[idx := (graphs st1 ! idx)\<lparr>vals := v\<rparr>] = graphs st"
    using idx vi by (simp add: st1(4) list_update_same_conv)
  then show ?thesis using f by (simp add: fetchInto_def g1)
qed

lemma validation_result:
  assumes sy: "synchronized st"
  shows "validation E st =
         Inr (st\<lparr>scheduler := map_option (\<lambda>s. validate E s
                ((graphs st ! 0)\<lparr>vals :=
                   (if movingAvg st
                    then concat (paramsAvg st) @ drop (length (concat (params st))) (vals (graphs st ! 0))
                    else vals (graphs st ! 0))\<rparr>)) (scheduler st)\<rparr>)"
proof (cases "movingAvg st")
  case False
  then show ?thesis by (simp add: validation_def Let_def)
next
  case True
  have idx: "0 < length (graphs st)" using sy by (simp add: synchronized_def)
  define shadow where
    "shadow = concat (paramsAvg st) @ drop (length (concat (params st))) (vals (graphs st ! 0))"
  define st1 where "st1 = st\<lparr>graphs := (graphs st)[0 := (graphs st ! 0)\<lparr>vals := shadow\<rparr>]\<rparr>"
  define st2 where "st2 = st1\<lparr>scheduler :=
                       map_option (\<lambda>s. validate E s (graphs st1 ! 0)) (scheduler st1)\<rparr>"
  have f1: "fetchInto 0 (paramsAvg st) st = Inr st1"
    unfolding st1_def shadow_def using sy True idx by (rule fetch_shadow)
  have ml: "map length (paramsAvg st) = map length (params st)"
    using sy True by (simp add: synchronized_def)
  have f2: "fetchInto 0 (params st2) st2 = Inr (st2\<lparr>graphs := graphs st\<rparr>)"
    by (rule fetch_live [OF sy idx concat_length_cong [OF ml]])
       (simp_all add: st2_def st1_def shadow_def)
  have "validation E st = Inr (st2\<lparr>graphs := graphs st\<rparr>)"
    using True f1 f2 by (simp add: validation_def Let_def st2_def [symmetric]) (simp add: st2_def st1_def)
  also have "st2\<lparr>graphs := graphs st\<rparr> =
             st\<lparr>scheduler := map_option (\<lambda>s. validate E s ((graphs st ! 0)\<lparr>vals := shadow\<rparr>))
                                 (scheduler st)\<rparr>"
    using idx by (simp add: st2_def st1_def)
  finally show ?thesis using True by (simp add: shadow_def)
qed

lemma persist_frame:
  assumes "persist E idx isFinal st = Inr st'"
  shows "st' = st\<lparr>disk := disk st'\<rparr>"
  using assms by (auto simp: persist_def Let_def split: if_splits sum.splits)

lemma persist_fields:
  assumes "persist E idx isFinal st = Inr st'"
  shows "movingAvg st' = movingAvg st" "graphs st' = graphs st" "params st' = params st"
    "devices st' = devices st" "shardSize st' = shardSize st" "scheduler st' = scheduler st"
  using assms by (auto simp: persist_def Let_def split: if_splits sum.splits)

lemma persist_result:
  assumes "overwrite (options st) \<or> isFinal \<or> 4 \<le> length (model_path (options st))"
  shows "persist E idx isFinal st =
     Inr (st\<lparr>disk := disk st @
        (if \<not> overwrite (options st) \<and> \<not> isFinal
         then [ModelSaved (take (length (model_path (options st)) - 4) (model_path (options st))
                           @ ''.iter''
                           @ (case scheduler st of
                                Some s \<Rightarrow> to_string (numberOfBatches E s)
                              | None \<Rightarrow> ''unknown'')
                           @ ''.npz'')
                 (vals (graphs st ! idx)) None]
         else [])
        @ [ModelSaved (model_path (options st)) (vals (graphs st ! idx)) (Some True)]
        @ (case scheduler st of None \<Rightarrow> [] | Some s \<Rightarrow> [SchedulerSaved (model_path (options st)) s])\<rparr>)"
  using assms by (auto simp: persist_def Let_def nameOverwrite_def)

lemma save_graph_via_persist:
  assumes sy: "synchronized st"
  shows "save_graph E g isFinal st =
     (case persist E (if g < length (graphs st) then g else 0) isFinal
             (st\<lparr>graphs := (graphs st)[(if g < length (graphs st) then g else 0) :=
                 (graphs st ! (if g < length (graphs st) then g else 0))\<lparr>vals :=
                   (if movingAvg st
                    then concat (paramsAvg st) @ drop (length (concat (params st))) (vals (graphs st ! 0))
                    else vals (graphs st ! 0))\<rparr>]\<rparr>) of
        Inl e \<Rightarrow> Inl e
      | Inr st2 \<Rightarrow> Inr (st2\<lparr>graphs := graphs st\<rparr>))"
proof -
  define idx where "idx = (if g < length (graphs st) then g else 0)"
  have pos: "0 < length (graphs st)" using sy by (simp add: synchronized_def)
  have idx: "idx < length (graphs st)" using pos by (simp add: idx_def)
  have vi: "vals (graphs st ! idx) = vals (graphs st ! 0)" using sy idx by (rule synchronized_vals)
  show ?thesis
  proof (cases "movingAvg st")
    case False
    have same: "(graphs st)[idx := (graphs st ! idx)\<lparr>vals := vals (graphs st ! 0)\<rparr>] = graphs st"
      using idx vi by (simp add: list_update_same_conv)
    have "st2\<lparr>graphs := graphs st\<rparr> = st2 \<and> \<not> movingAvg st2"
      if p: "persist E idx isFinal st = Inr st2" for st2
      using persist_fields(1,2) [OF p] False by simp
    then show ?thesis
      using False unfolding idx_def [symmetric]
      by (simp add: save_graph_def Let_def idx_def [symmetric] same split: sum.splits)
  next
    case True
    define shadow where
      "shadow = concat (paramsAvg st) @ drop (length (concat (params st))) (vals (graphs st ! 0))"
    define st1 where "st1 = st\<lparr>graphs := (graphs st)[idx := (graphs st ! idx)\<lparr>vals := shadow\<rparr>]\<rparr>"
    have f1: "fetchInto idx (paramsAvg st) st = Inr st1"
      unfolding st1_def shadow_def using sy True idx by (rule fetch_shadow)
    have ml: "map length (paramsAvg st) = map length (params st)"
      using sy True by (simp add: synchronized_def)
    have f2: "fetchInto idx (params st2) st2 = Inr (st2\<lparr>graphs := graphs st\<rparr>)"
      if p: "persist E idx isFinal st1 = Inr st2" for st2
      by (rule fetch_live [OF sy idx concat_length_cong [OF ml]])
         (simp_all add: persist_fields [OF p] st1_def shadow_def)
    have ma2: "movingAvg st2" if p: "persist E idx isFinal st1 = Inr st2" for st2
      by (simp add: persist_fields [OF p] st1_def True)
    show ?thesis
    proof (cases "persist E idx isFinal st1")
      case (Inl e)
      have "save_graph E g isFinal st = Inl e"
        using True f1 Inl by (simp add: save_graph_def Let_def idx_def [symmetric])
      moreover have "(case persist E idx isFinal st1 of
                        Inl e \<Rightarrow> Inl e
                      | Inr st2 \<Rightarrow> Inr (st2\<lparr>graphs := graphs st\<rparr>)) = Inl e"
        using Inl by simp
      ultimately show ?thesis
        using True unfolding idx_def [symmetric] st1_def shadow_def by simp
    next
      case (Inr st2)
      have "save_graph E g isFinal st = Inr (st2\<lparr>graphs := graphs st\<rparr>)"
        using True f1 Inr f2 [OF Inr] ma2 [OF Inr]
        by (simp add: save_graph_def Let_def idx_def [symmetric])
      moreover have "(case persist E idx isFinal st1 of
                        Inl e \<Rightarrow> Inl e
                      | Inr st2 \<Rightarrow> Inr (st2\<lparr>graphs := graphs st\<rparr>))
                     = Inr (st2\<lparr>graphs := graphs st\<rparr>)"
        using Inr by simp
      ultimately show ?thesis
        using True unfolding idx_def [symmetric] st1_def shadow_def by simp
    qed
  qed
qed

lemma save_graph_frame:
  assumes sy: "synchronized st" and s: "save_graph E g isFinal st = Inr st'"
  shows "st' = st\<lparr>disk := disk st'\<rparr>"
proof -
  define idx where "idx = (if g < length (graphs st) then g else 0)"
  define st1 where "st1 = st\<lparr>graphs := (graphs st)[idx := (graphs st ! idx)\<lparr>vals :=
                   (if movingAvg st
                    then concat (paramsAvg st) @ drop (length (concat (params st))) (vals (graphs st ! 0))
                    else vals (graphs st ! 0))\<rparr>]\<rparr>"
  have "save_graph E g isFinal st =
          (case persist E idx isFinal st1 of
             Inl e \<Rightarrow> Inl e | Inr st2 \<Rightarrow> Inr (st2\<lparr>graphs := graphs st\<rparr>))"
    unfolding idx_def st1_def using sy by (rule save_graph_via_persist)
  then obtain st2 where p: "persist E idx isFinal st1 = Inr st2"
    and st': "st' = st2\<lparr>graphs := graphs st\<rparr>"
    using s by (auto split: sum.splits)
  have "st2 = st1\<lparr>disk := disk st2\<rparr>" using p by (rule persist_frame)
  then have "st' = st1\<lparr>disk := disk st2, graphs := graphs st\<rparr>" using st' by simp
  then show ?thesis by (simp add: st1_def)
qed

lemma validation_frame:
  assumes "synchronized st" "validation E st = Inr st'"
  shows "st' = st\<lparr>scheduler := scheduler st'\<rparr>"
  using assms(2) unfolding validation_result [OF assms(1)] by auto

lemma afterStep_frame:
  assumes sy: "synchronized st" and a: "afterStep E b c st = Inr st'"
  shows "st' = st\<lparr>disk := disk st', scheduler := scheduler st'\<rparr>"
proof (cases "scheduler st")
  case None
  then show ?thesis using a by (auto simp: afterStep_def)
next
  case (Some s)
  define s1 where "s1 = sched_update E s c b"
  define st1 where "st1 = st\<lparr>scheduler := Some s1\<rparr>"
  have sy1: "synchronized st1" using sy by (simp add: st1_def)
  have a': "afterStep E b c st =
      (case (if saving E s1 then save E False st1 else Inr st1) of
         Inl e \<Rightarrow> Inl e
       | Inr st2 \<Rightarrow> if validating E s1 then validation E st2 else Inr st2)"
    unfolding afterStep_def Let_def s1_def st1_def Some by simp
  obtain st2 where sv: "(if saving E s1 then save E False st1 else Inr st1) = Inr st2"
    and vl: "(if validating E s1 then validation E st2 else Inr st2) = Inr st'"
    using a unfolding a'
    by (cases "if saving E s1 then save E False st1 else Inr st1") simp_all
  have st2: "st2 = st1\<lparr>disk := disk st2\<rparr>"
    using sv save_graph_frame [OF sy1, of E 0 False st2]
    by (auto simp: save_def split: if_splits)
  have sy2: "synchronized st2" by (subst st2) (simp add: sy1)
  have e: "st' = st2\<lparr>scheduler := scheduler st'\<rparr>"
    using vl validation_frame [OF sy2, of E st'] by (auto split: if_splits)
  have d: "disk st' = disk st2" by (subst e) simp
  have "st' = st\<lparr>disk := disk st2, scheduler := scheduler st'\<rparr>"
    using e by (subst (asm) st2) (simp add: st1_def)
  then show ?thesis unfolding d [symmetric] .
qed

lemma afterStep_synchronized:
  assumes "synchronized st" "afterStep E b c st = Inr st'"
  shows "synchronized st'" "graphs st' = graphs st" "params st' = params st"
proof -
  note f = afterStep_frame [OF assms]
  show "synchronized st'" by (subst f) (simp add: assms(1))
  show "graphs st' = graphs st" by (subst f) simp
  show "params st' = params st" by (subst f) simp
qed

lemma fresh_or_synchronized:
  assumes "fresh st \<or> synchronized st" "same_size E T"
  shows "synchronized (if first st then firstStep E bs st else st)"
proof (cases "first st")
  case True
  then have "fresh st" using assms(1) by (auto simp: synchronized_def)
  then show ?thesis using True assms(2) by (simp add: firstStep_synchronized)
next
  case False
  then have "synchronized st" using assms(1) by (auto simp: fresh_def)
  then show ?thesis using False by simp
qed

lemma execute_synchronized:
  assumes opt: "opt_in_place E" and sz: "same_size E T" and st: "fresh st \<or> synchronized st"
    and ex: "execute E batch st = Inr st'"
  shows "synchronized st'"
proof -
  define bs where "bs = batch_split E batch (length (devices st))"
  define st1 where "st1 = (if first st then firstStep E bs st else st)"
  define st2 where "st2 = snd (computePhase E bs st1)"
  have sy1: "synchronized st1" unfolding st1_def using st sz by (rule fresh_or_synchronized)
  have sy2: "synchronized st2" unfolding st2_def using sy1 by (rule computePhase_synchronized)
  have ex': "execute E batch st =
      (case reducePhase E bs st2 of
         Inl e \<Rightarrow> Inl e
       | Inr st3 \<Rightarrow> afterStep E batch (reportedCost (fst (computePhase E bs st1))) st3)"
    unfolding execute_def Let_def bs_def st1_def st2_def by (rule refl)
  obtain st3 where r: "reducePhase E bs st2 = Inr st3"
    and a: "afterStep E batch (reportedCost (fst (computePhase E bs st1))) st3 = Inr st'"
    using ex unfolding ex' by (cases "reducePhase E bs st2") simp_all
  have sy3: "synchronized st3" using opt sy2 r by (rule reducePhase_synchronized)
  show ?thesis using sy3 a by (rule afterStep_synchronized)
qed

subsection \<open>Replica convergence\<close>

lemma reduceTask_completes:
  "movingAvg st \<longrightarrow> scheduler st \<noteq> None \<Longrightarrow> \<exists>st'. reduceTask E bs idx pos st = Inr st'"
  by (cases "scheduler st") (auto simp: reduceTask_def Let_def)

lemma reduceLoop_completes:
  "movingAvg st \<longrightarrow> scheduler st \<noteq> None \<Longrightarrow> \<exists>st'. reduceLoop E bs pos idxs st = Inr st'"
proof (induction idxs arbitrary: pos st)
  case Nil
  show ?case by simp
next
  case (Cons idx idxs)
  obtain st1 where t: "reduceTask E bs idx pos st = Inr st1"
    using reduceTask_completes [OF Cons.prems] by blast
  have "movingAvg st1 \<longrightarrow> scheduler st1 \<noteq> None"
    using Cons.prems reduceTask_frame(3,5) [OF t] by simp
  then obtain st' where "reduceLoop E bs (pos + length (params st ! idx)) idxs st1 = Inr st'"
    using Cons.IH by blast
  then show ?case using t by simp
qed

lemma reduceLoop_fields:
  "reduceLoop E bs pos idxs st = Inr st' \<Longrightarrow>
     devices st' = devices st \<and> shardSize st' = shardSize st \<and> movingAvg st' = movingAvg st
     \<and> mvDecay st' = mvDecay st \<and> scheduler st' = scheduler st \<and> options st' = options st
     \<and> disk st' = disk st \<and> first st' = first st"
proof (induction idxs arbitrary: pos st)
  case Nil
  then show ?case by simp
next
  case (Cons idx idxs)
  obtain st1 where t: "reduceTask E bs idx pos st = Inr st1"
    and l: "reduceLoop E bs (pos + length (params st ! idx)) idxs st1 = Inr st'"
    using Cons.prems by (auto split: sum.splits)
  show ?case using Cons.IH [OF l] reduceTask_frame [OF t] by simp
qed

lemma execute_without_scheduler:
  assumes "\<not> movingAvg st" "scheduler st = None"
  shows "\<exists>st'. execute E batch st = Inr st' \<and> scheduler st' = None \<and> disk st' = disk st"
proof -
  define bs where "bs = batch_split E batch (length (devices st))"
  define st1 where "st1 = (if first st then firstStep E bs st else st)"
  define st2 where "st2 = snd (computePhase E bs st1)"
  have ex: "execute E batch st =
      (case reducePhase E bs st2 of
         Inl e \<Rightarrow> Inl e
       | Inr st3 \<Rightarrow> afterStep E batch (reportedCost (fst (computePhase E bs st1))) st3)"
    unfolding execute_def Let_def bs_def st1_def st2_def by (rule refl)
  have f2: "\<not> movingAvg st2" "scheduler st2 = None" "disk st2 = disk st"
    using assms by (simp_all add: st2_def st1_def)
  obtain st3 where r: "reducePhase E bs st2 = Inr st3"
    using reduceLoop_completes [of st2 E bs 0 "[0..<length (devices st2)]"] f2
    by (auto simp: reducePhase_def)
  have f3: "scheduler st3 = None" "disk st3 = disk st"
    using reduceLoop_fields [of E bs 0 "[0..<length (devices st2)]" st2 st3] r f2
    by (simp_all add: reducePhase_def)
  have "execute E batch st = Inr st3"
    unfolding ex using r f3 by (simp add: afterStep_def)
  then show ?thesis using f3 by simp
qed

lemma example_contracts [simp]:
  "opt_in_place (exampleEnv a b c)" "same_size (exampleEnv a b c) 5"
  by (simp_all add: opt_in_place_def same_size_def exampleEnv_def)

lemma example_fresh: "devs \<noteq> [] \<Longrightarrow> fresh (exampleGroup devs ma)"
  by (simp add: fresh_def exampleGroup_def SyncGraphGroup_def)

text \<open>
  C1 (replica convergence). \<open>fresh\<close> is the group as the constructor leaves it,
  \<open>synchronized\<close> the state in which a completed step leaves it: the shards have the sizes
  of the shard table, every replica holds the same parameters, and these begin with the
  concatenation of the shards. For collaborators that build every replica with the same
  number \<open>T\<close> of parameters and update tensors in place, and for a call of \<open>execute\<close> in
  either state: after the initialization of lines 75--136 (or at once, when the step is not
  the first) all replicas hold the same parameters; after the reduction phase with its
  broadcasts they do again; and if the call completes, they do in the state it returns,
  which is synchronized, so that the same holds for the next call.
\<close>

theorem replicas_converge:
  fixes E :: "('b, 'o, 's) env" and batch :: 'b and st :: "('o, 's) state"
  defines "batches \<equiv> batch_split E batch (length (devices st))"
  defines "st1 \<equiv> (if first st then firstStep E batches st else st)"
  assumes opt: "opt_in_place E" and sz: "same_size E T" and st: "fresh st \<or> synchronized st"
  shows "replicas_identical (graphs st1)
     \<and> (\<forall>st3. reducePhase E batches (snd (computePhase E batches st1)) = Inr st3
            \<longrightarrow> replicas_identical (graphs st3))
     \<and> (\<forall>st'. execute E batch st = Inr st'
            \<longrightarrow> replicas_identical (graphs st') \<and> synchronized st')"
proof (intro conjI allI impI)
  have sy1: "synchronized st1" unfolding st1_def using st sz by (rule fresh_or_synchronized)
  then show "replicas_identical (graphs st1)" by (simp add: synchronized_def)
  have sy2: "synchronized (snd (computePhase E batches st1))"
    using sy1 by (rule computePhase_synchronized)
  show "replicas_identical (graphs st3)"
    if "reducePhase E batches (snd (computePhase E batches st1)) = Inr st3" for st3
    using reducePhase_synchronized [OF opt sy2 that] by (simp add: synchronized_def)
  show "synchronized st'" if "execute E batch st = Inr st'" for st'
    using opt sz st that by (rule execute_synchronized)
  then show "replicas_identical (graphs st')" if "execute E batch st = Inr st'" for st'
    using that by (simp add: synchronized_def)
qed

theorem replicas_converge_witness:
  "opt_in_place (exampleEnv False False False) \<and> same_size (exampleEnv False False False) 5
   \<and> fresh (exampleGroup [0, 1] False)
   \<and> replicas_identical (graphs (firstStep (exampleEnv False False False)
        (batch_split (exampleEnv False False False) 2 (length (devices (exampleGroup [0, 1] False))))
        (exampleGroup [0, 1] False)))
   \<and> (\<exists>st'. execute (exampleEnv False False False) 2 (exampleGroup [0, 1] False) = Inr st'
          \<and> replicas_identical (graphs st') \<and> synchronized st')"
proof -
  let ?E = "exampleEnv False False False"
  let ?st = "exampleGroup [0, 1] False :: (unit, nat \<times> real) state"
  have fr: "fresh ?st" by (rule example_fresh) simp
  have f: "first ?st" "\<not> movingAvg ?st" "scheduler ?st = None"
    by (simp_all add: exampleGroup_def SyncGraphGroup_def)
  note w = replicas_converge [of ?E 5 ?st 2, OF example_contracts disjI1 [OF fr]]
  obtain st' where ex: "execute ?E 2 ?st = Inr st'"
    using execute_without_scheduler [OF f(2,3), of ?E 2] by blast
  have 1: "replicas_identical (graphs (firstStep ?E (batch_split ?E 2 (length (devices ?st))) ?st))"
    using w f(1) by simp
  have 2: "replicas_identical (graphs st') \<and> synchronized st'"
    using w ex by blast
  show ?thesis using fr 1 2 ex by auto
qed

subsection \<open>Validation\<close>

lemma exampleTrained_synchronized: "synchronized exampleTrained"
proof -
  have "shard_sizes 2 (length [1, 2, 3 :: real]) [[1, 2], [3 :: real]]"
    by (auto simp: shard_sizes_def less_Suc_eq)
  moreover have "replicas_identical [\<lparr>vals = [1, 2, 3], gradients = [0, 0, 0]\<rparr>,
                \<lparr>vals = [1, 2, 3], gradients = [0, 0, 0]\<rparr>]"
    by (simp add: replicas_identical_def)
  ultimately show ?thesis
    by (simp add: synchronized_def exampleTrained_def)
qed




subsection \<open>Saving\<close>

lemma save_graph_result:
  assumes sy: "synchronized st"
    and nm: "overwrite (options st) \<or> isFinal \<or> 4 \<le> length (model_path (options st))"
  shows "save_graph E g isFinal st =
     Inr (st\<lparr>disk := disk st @
        (if \<not> overwrite (options st) \<and> \<not> isFinal
         then [ModelSaved (take (length (model_path (options st)) - 4) (model_path (options st))
                           @ ''.iter''
                           @ (case scheduler st of
                                Some s \<Rightarrow> to_string (numberOfBatches E s)
                              | None \<Rightarrow> ''unknown'')
                           @ ''.npz'')
                 (if movingAvg st
                  then concat (paramsAvg st) @ drop (length (concat (params st))) (vals (graphs st ! 0))
                  else vals (graphs st ! 0)) None]
         else [])
        @ [ModelSaved (model_path (options st))
             (if movingAvg st
              then concat (paramsAvg st) @ drop (length (concat (params st))) (vals (graphs st ! 0))
              else vals (graphs st ! 0)) (Some True)]
        @ (case scheduler st of None \<Rightarrow> [] | Some s \<Rightarrow> [SchedulerSaved (model_path (options st)) s])\<rparr>)"
proof -
  define idx where "idx = (if g < length (graphs st) then g else 0)"
  define v where "v = (if movingAvg st
      then concat (paramsAvg st) @ drop (length (concat (params st))) (vals (graphs st ! 0))
      else vals (graphs st ! 0))"
  define st1 where "st1 = st\<lparr>graphs := (graphs st)[idx := (graphs st ! idx)\<lparr>vals := v\<rparr>]\<rparr>"
  have idx: "idx < length (graphs st)" using sy by (simp add: idx_def synchronized_def)
  have s: "save_graph E g isFinal st =
          (case persist E idx isFinal st1 of
             Inl e \<Rightarrow> Inl e | Inr st2 \<Rightarrow> Inr (st2\<lparr>graphs := graphs st\<rparr>))"
    unfolding idx_def st1_def v_def using sy by (rule save_graph_via_persist)
  have nm1: "overwrite (options st1) \<or> isFinal \<or> 4 \<le> length (model_path (options st1))"
    using nm by (simp add: st1_def)
  have v1: "vals (graphs st1 ! idx) = v" using idx by (simp add: st1_def)
  have o1: "options st1 = options st" "scheduler st1 = scheduler st" "disk st1 = disk st"
    by (simp_all add: st1_def)
  show ?thesis
    unfolding s persist_result [OF nm1] v1 v_def [symmetric] o1
    by (simp add: st1_def)
qed

text \<open>
  C8 (a save persists the live parameters), refuted for the moving average: for the group
  \<open>exampleTrained\<close> with the live parameters \<open>[1, 2, 3]\<close> and the shadows \<open>[5, 6]\<close> and \<open>[7]\<close>
  both files hold \<open>[5, 6, 7]\<close>.
\<close>

theorem save_persists_shadow:
  "save (exampleEnv True False False) False exampleTrained =
     Inr (exampleTrained\<lparr>disk :=
        [ModelSaved ''model.iter3.npz'' [5, 6, 7] None,
         ModelSaved ''model.npz'' [5, 6, 7] (Some True),
         SchedulerSaved ''model.npz'' (3, 0)]\<rparr>)
   \<and> vals (graphs exampleTrained ! 0) = [1, 2, 3]
   \<and> concat (params exampleTrained) = [1, 2, 3]"
proof -
  have nm: "overwrite (options exampleTrained) \<or> False
            \<or> 4 \<le> length (model_path (options exampleTrained))"
    by (simp add: exampleTrained_def exampleOptions_def)
  have ts: "to_string 3 = ''3''" by (simp add: to_string.simps)
  show ?thesis
    unfolding save_def save_graph_result [OF exampleTrained_synchronized nm]
    by (simp add: exampleTrained_def exampleOptions_def exampleEnv_def ts)
qed

text \<open>
  C8 as amended: a save in a synchronized state persists, for the primary replica, its
  live parameters when the moving average is disabled and the moving-average shadow values
  (the concatenation of the shadow shards, followed by the parameters beyond the last
  shard, if any) when it is enabled, and the scheduler state when a scheduler is set; the
  live parameters of the replica are as before when the save returns. If overwrite-mode is
  off and the save is not final, the same values are first persisted under the model path
  with its last four characters replaced by \<open>.iter\<close>, the batch count of the scheduler
  (\<open>unknown\<close> without a scheduler) and \<open>.npz\<close>; this is stated for model paths of at least
  four characters.
\<close>

theorem save_persists:
  fixes E :: "('b, 'o, 's) env" and st :: "('o, 's) state"
  defines "name \<equiv> model_path (options st)"
  defines "v \<equiv> (if movingAvg st
      then concat (paramsAvg st) @ drop (length (concat (params st))) (vals (graphs st ! 0))
      else vals (graphs st ! 0))"
  defines "n \<equiv> (case scheduler st of
                  Some s \<Rightarrow> to_string (numberOfBatches E s) | None \<Rightarrow> ''unknown'')"
  assumes "synchronized st"
    and "overwrite (options st) \<or> isFinal \<or> 4 \<le> length name"
  shows "save_graph E g isFinal st =
     Inr (st\<lparr>disk := disk st @
        (if \<not> overwrite (options st) \<and> \<not> isFinal
         then [ModelSaved (take (length name - 4) name @ ''.iter'' @ n @ ''.npz'') v None]
         else [])
        @ [ModelSaved name v (Some True)]
        @ (case scheduler st of None \<Rightarrow> [] | Some s \<Rightarrow> [SchedulerSaved name s])\<rparr>)"
  unfolding name_def v_def n_def
  using assms(4,5) unfolding name_def by (rule save_graph_result)

theorem save_persists_witness:
  "synchronized (exampleTrained\<lparr>movingAvg := False\<rparr>)
   \<and> 4 \<le> length (model_path (options (exampleTrained\<lparr>movingAvg := False\<rparr>)))
   \<and> save_graph (exampleEnv True False False) 0 False (exampleTrained\<lparr>movingAvg := False\<rparr>) =
     Inr (exampleTrained\<lparr>movingAvg := False, disk :=
        [ModelSaved ''model.iter3.npz'' [1, 2, 3] None,
         ModelSaved ''model.npz'' [1, 2, 3] (Some True),
         SchedulerSaved ''model.npz'' (3, 0)]\<rparr>)"
proof -
  let ?st = "exampleTrained\<lparr>movingAvg := False\<rparr>"
  have sy: "synchronized ?st"
    using exampleTrained_synchronized by (simp add: synchronized_def)
  have nm: "overwrite (options ?st) \<or> False \<or> 4 \<le> length (model_path (options ?st))"
    by (simp add: exampleTrained_def exampleOptions_def)
  have ts: "to_string 3 = ''3''" by (simp add: to_string.simps)
  note w = save_persists [OF sy nm, of "exampleEnv True False False" 0]
  have "save_graph (exampleEnv True False False) 0 False ?st =
     Inr (exampleTrained\<lparr>movingAvg := False, disk :=
        [ModelSaved ''model.iter3.npz'' [1, 2, 3] None,
         ModelSaved ''model.npz'' [1, 2, 3] (Some True),
         SchedulerSaved ''model.npz'' (3, 0)]\<rparr>)"
    unfolding w by (simp add: exampleTrained_def exampleOptions_def exampleEnv_def ts)
  moreover have "4 \<le> length (model_path (options ?st))"
    by (simp add: exampleTrained_def exampleOptions_def)
  ultimately show ?thesis using sy by simp
qed

subsection \<open>Loading\<close>

lemma loadGraphs_Inr:
  "loadGraphs E init i gs = Inr gs' \<longleftrightarrow>
     length gs' = length gs
     \<and> (\<forall>k < length gs. model_load E (i + k) (gs ! k) init = Inr (gs' ! k))"
proof (induction gs arbitrary: i gs')
  case Nil
  show ?case by auto
next
  case (Cons g gs)
  show ?case
  proof (cases gs')
    case Nil
    then show ?thesis by (auto split: sum.splits)
  next
    case (Cons g' gs1)
    have "(\<forall>k < Suc (length gs). model_load E (i + k) ((g # gs) ! k) init = Inr ((g' # gs1) ! k))
          \<longleftrightarrow> model_load E i g init = Inr g'
              \<and> (\<forall>k < length gs. model_load E (i + 1 + k) (gs ! k) init = Inr (gs1 ! k))"
      by (auto simp: less_Suc_eq_0_disj)
    then show ?thesis
      using Cons.IH [of "i + 1" gs1] Cons by (auto split: sum.splits)
  qed
qed

text \<open>
  C9 (load): \<open>load\<close> returns the state unchanged, and no error, when reloading is disabled
  or no file exists at the model path. Otherwise it returns a state exactly when the
  scheduler (if one is set) and every replica load from the file: the scheduler is then
  the loaded one, replica \<open>i\<close> is what builder \<open>i\<close> loaded, and nothing else has changed;
  the scheduler is loaded first, so its failure is the one reported.
\<close>

theorem load_reload:
  fixes E :: "('b, 'o, 's) env" and st :: "('o, 's) state"
  defines "init \<equiv> model_path (options st)"
  shows "(no_reload (options st) \<or> \<not> file_exists E init \<longrightarrow> load E st = Inr st)
     \<and> (\<not> no_reload (options st) \<and> file_exists E init \<longrightarrow>
          (\<forall>st'. load E st = Inr st' \<longleftrightarrow>
             (\<exists>sch gs.
                (case scheduler st of
                   None \<Rightarrow> sch = None
                 | Some s \<Rightarrow> \<exists>s'. sched_load E s init = Inr s' \<and> sch = Some s')
                \<and> length gs = length (graphs st)
                \<and> (\<forall>i < length (graphs st). model_load E i (graphs st ! i) init = Inr (gs ! i))
                \<and> st' = st\<lparr>scheduler := sch, graphs := gs\<rparr>))
          \<and> (\<forall>s e. scheduler st = Some s \<and> sched_load E s init = Inl e \<longrightarrow> load E st = Inl e))"
proof (intro conjI impI allI)
  assume "no_reload (options st) \<or> \<not> file_exists E init"
  then show "load E st = Inr st" by (auto simp: load_def init_def)
next
  fix st'
  assume a: "\<not> no_reload (options st) \<and> file_exists E init"
  show "load E st = Inr st' \<longleftrightarrow>
             (\<exists>sch gs.
                (case scheduler st of
                   None \<Rightarrow> sch = None
                 | Some s \<Rightarrow> \<exists>s'. sched_load E s init = Inr s' \<and> sch = Some s')
                \<and> length gs = length (graphs st)
                \<and> (\<forall>i < length (graphs st). model_load E i (graphs st ! i) init = Inr (gs ! i))
                \<and> st' = st\<lparr>scheduler := sch, graphs := gs\<rparr>)"
  proof
    assume "load E st = Inr st'"
    then show "\<exists>sch gs.
                (case scheduler st of
                   None \<Rightarrow> sch = None
                 | Some s \<Rightarrow> \<exists>s'. sched_load E s init = Inr s' \<and> sch = Some s')
                \<and> length gs = length (graphs st)
                \<and> (\<forall>i < length (graphs st). model_load E i (graphs st ! i) init = Inr (gs ! i))
                \<and> st' = st\<lparr>scheduler := sch, graphs := gs\<rparr>"
      using a loadGraphs_Inr [of E init 0 "graphs st"]
      by (auto simp: load_def init_def Let_def split: sum.splits option.splits)
  next
    assume "\<exists>sch gs.
                (case scheduler st of
                   None \<Rightarrow> sch = None
                 | Some s \<Rightarrow> \<exists>s'. sched_load E s init = Inr s' \<and> sch = Some s')
                \<and> length gs = length (graphs st)
                \<and> (\<forall>i < length (graphs st). model_load E i (graphs st ! i) init = Inr (gs ! i))
                \<and> st' = st\<lparr>scheduler := sch, graphs := gs\<rparr>"
    then obtain sch gs where sch: "case scheduler st of
                   None \<Rightarrow> sch = None
                 | Some s \<Rightarrow> \<exists>s'. sched_load E s init = Inr s' \<and> sch = Some s'"
      and gs: "length gs = length (graphs st)"
        "\<forall>i < length (graphs st). model_load E i (graphs st ! i) init = Inr (gs ! i)"
      and st': "st' = st\<lparr>scheduler := sch, graphs := gs\<rparr>"
      by blast
    have lg: "loadGraphs E init 0 (graphs st) = Inr gs"
      using gs by (simp add: loadGraphs_Inr)
    show "load E st = Inr st'"
      using a sch lg st' by (auto simp: load_def init_def Let_def split: option.splits)
  qed
next
  fix s e
  assume "\<not> no_reload (options st) \<and> file_exists E init"
    and "scheduler st = Some s \<and> sched_load E s init = Inl e"
  then show "load E st = Inl e" by (simp add: load_def init_def Let_def)
qed


theorem load_reload_witness:
  "load (exampleEnv False False False) (setScheduler (3, 0) (exampleGroup [0, 1] False))
     = Inr (setScheduler (3, 0) (exampleGroup [0, 1] False))
   \<and> load (exampleEnv False False True) (setScheduler (3, 0) (exampleGroup [0, 1] False))
     = Inr ((exampleGroup [0, 1] False)
            \<lparr>scheduler := Some (7, 0),
             graphs := [\<lparr>vals = [9, 9, 9, 9, 9], gradients = []\<rparr>,
                        \<lparr>vals = [9, 9, 9, 9, 9], gradients = []\<rparr>]\<rparr>)"
proof -
  let ?st = "setScheduler (3, 0) (exampleGroup [0, 1] False) :: (unit, nat \<times> real) state"
  let ?gs = "[\<lparr>vals = [9, 9, 9, 9, 9], gradients = []\<rparr>,
              \<lparr>vals = [9, 9, 9, 9, 9], gradients = []\<rparr>]"
  have f: "\<not> no_reload (options ?st)" "scheduler ?st = Some (3, 0)"
    "graphs ?st = [\<lparr>vals = [], gradients = []\<rparr>, \<lparr>vals = [], gradients = []\<rparr>]"
    by (simp_all add: setScheduler_def exampleGroup_def SyncGraphGroup_def exampleOptions_def)
  have 1: "load (exampleEnv False False False) ?st = Inr ?st"
    using load_reload [of ?st "exampleEnv False False False"] by (simp add: exampleEnv_def)
  have ex: "file_exists (exampleEnv False False True) (model_path (options ?st))"
    by (simp add: exampleEnv_def)
  have "load (exampleEnv False False True) ?st = Inr (?st\<lparr>scheduler := Some (7, 0), graphs := ?gs\<rparr>)
        \<longleftrightarrow> (\<exists>sch gs.
                (case scheduler ?st of
                   None \<Rightarrow> sch = None
                 | Some s \<Rightarrow> \<exists>s'. sched_load (exampleEnv False False True) s
                                   (model_path (options ?st)) = Inr s' \<and> sch = Some s')
                \<and> length gs = length (graphs ?st)
                \<and> (\<forall>i < length (graphs ?st).
                      model_load (exampleEnv False False True) i (graphs ?st ! i)
                        (model_path (options ?st)) = Inr (gs ! i))
                \<and> ?st\<lparr>scheduler := Some (7, 0), graphs := ?gs\<rparr> = ?st\<lparr>scheduler := sch, graphs := gs\<rparr>)"
    using load_reload [of ?st "exampleEnv False False True"] f(1) ex by blast
  moreover have "\<exists>sch gs.
                (case scheduler ?st of
                   None \<Rightarrow> sch = None
                 | Some s \<Rightarrow> \<exists>s'. sched_load (exampleEnv False False True) s
                                   (model_path (options ?st)) = Inr s' \<and> sch = Some s')
                \<and> length gs = length (graphs ?st)
                \<and> (\<forall>i < length (graphs ?st).
                      model_load (exampleEnv False False True) i (graphs ?st ! i)
                        (model_path (options ?st)) = Inr (gs ! i))
                \<and> ?st\<lparr>scheduler := Some (7, 0), graphs := ?gs\<rparr> = ?st\<lparr>scheduler := sch, graphs := gs\<rparr>"
    unfolding f(2,3)
    by (intro exI [of _ "Some (7, 0)"] exI [of _ ?gs])
       (simp add: exampleEnv_def less_Suc_eq)
  ultimately have 2: "load (exampleEnv False False True) ?st
                       = Inr (?st\<lparr>scheduler := Some (7, 0), graphs := ?gs\<rparr>)"
    by blast
  show ?thesis using 1 2 by (simp add: setScheduler_def)
qed

subsection \<open>The reported cost\<close>

lemma foldl_plus: "foldl (+) a xs = a + sum_list xs" for a :: real
  by (induction xs arbitrary: a) simp_all

lemma computePhase_costs_aux:
  "k \<le> length gs \<Longrightarrow> length costs = length gs \<Longrightarrow>
   fst (foldl (computeTask E bs) (costs, gs) [0..<k])
     = map (\<lambda>idx. if 0 < batch_size E (bs ! idx)
                    then fst (train_step E idx (bs ! idx) (gs ! idx)) else costs ! idx) [0..<k]
       @ drop k costs
   \<and> length (snd (foldl (computeTask E bs) (costs, gs) [0..<k])) = length gs
   \<and> (\<forall>i. k \<le> i \<longrightarrow> snd (foldl (computeTask E bs) (costs, gs) [0..<k]) ! i = gs ! i)"
proof (induction k)
  case 0
  show ?case by simp
next
  case (Suc k)
  define cg where "cg = foldl (computeTask E bs) (costs, gs) [0..<k]"
  define f where "f = (\<lambda>idx. if 0 < batch_size E (bs ! idx)
                    then fst (train_step E idx (bs ! idx) (gs ! idx)) else costs ! idx)"
  have IH: "fst cg = map f [0..<k] @ drop k costs" "length (snd cg) = length gs"
    "\<forall>i. k \<le> i \<longrightarrow> snd cg ! i = gs ! i"
    using Suc unfolding cg_def f_def by simp_all
  have k: "k < length costs" using Suc.prems by simp
  have step: "foldl (computeTask E bs) (costs, gs) [0..<Suc k] = computeTask E bs cg k"
    by (simp add: cg_def)
  have lk: "length (map f [0..<k]) = k" by simp
  have d: "drop k costs = costs ! k # drop (Suc k) costs"
    using k by (simp add: Cons_nth_drop_Suc)
  have upd: "(map f [0..<k] @ drop k costs)[k := x] = map f [0..<k] @ x # drop (Suc k) costs" for x
    unfolding d by (simp add: list_update_append)
  have same: "map f [0..<k] @ drop k costs = map f [0..<k] @ costs ! k # drop (Suc k) costs"
    unfolding d [symmetric] ..
  have "fst (computeTask E bs cg k) = map f [0..<Suc k] @ drop (Suc k) costs"
    using IH(1,3) upd same by (simp add: computeTask_def Let_def f_def)
  moreover have "length (snd (computeTask E bs cg k)) = length gs"
    using IH(2) by (simp add: computeTask_def Let_def)
  moreover have "\<forall>i. Suc k \<le> i \<longrightarrow> snd (computeTask E bs cg k) ! i = gs ! i"
    using IH(3) by (simp add: computeTask_def Let_def)
  ultimately show ?case unfolding step f_def by simp
qed

lemma computePhase_costs:
  assumes "length batches = length (devices st)" "length (graphs st) = length (devices st)"
  shows "fst (computePhase E batches st) =
           map (\<lambda>r. if 0 < batch_size E (batches ! r)
                     then fst (train_step E r (batches ! r) (graphs st ! r)) else 0)
             [0..<length (devices st)]"
proof -
  have "fst (computePhase E batches st) =
          map (\<lambda>r. if 0 < batch_size E (batches ! r)
                     then fst (train_step E r (batches ! r) (graphs st ! r))
                     else replicate (length (devices st)) 0 ! r) [0..<length (devices st)]"
    using computePhase_costs_aux [of "length (devices st)" "graphs st"
            "replicate (length (devices st)) 0" E batches] assms
    by (simp add: computePhase_def Let_def)
  also have "\<dots> = map (\<lambda>r. if 0 < batch_size E (batches ! r)
                     then fst (train_step E r (batches ! r) (graphs st ! r)) else 0)
             [0..<length (devices st)]"
    by (rule map_cong) simp_all
  finally show ?thesis .
qed

text \<open>
  C4 (the reported cost is the mean over the replicas that computed), evaluation of the
  source: lines 192--195 add up all slots of \<^verbatim>\<open>costs\<close> and divide by \<^verbatim>\<open>costs.size()\<close>, the
  number of devices, and the slot of a replica with an empty sub-batch keeps its initial
  value 0. The cost handed to the scheduler is therefore the sum of the costs of the
  replicas with a non-empty sub-batch, divided by the number of all devices. For three
  devices, sub-batches of the sizes 1, 1 and 0 and the costs 3 and 3 it is 2, while the
  mean of the two costs is 3.
\<close>

theorem reportedCost_divides_by_devices:
  assumes "length batches = length (devices st)" "length (graphs st) = length (devices st)"
  shows "reportedCost (fst (computePhase E batches st)) =
           (\<Sum>r\<leftarrow>[r\<leftarrow>[0..<length (devices st)]. 0 < batch_size E (batches ! r)].
               fst (train_step E r (batches ! r) (graphs st ! r)))
           / real (length (devices st))"
proof -
  have "sum_list (map (\<lambda>r. if 0 < batch_size E (batches ! r)
                     then fst (train_step E r (batches ! r) (graphs st ! r)) else 0)
             [0..<length (devices st)])
        = (\<Sum>r\<leftarrow>[r\<leftarrow>[0..<length (devices st)]. 0 < batch_size E (batches ! r)].
               fst (train_step E r (batches ! r) (graphs st ! r)))"
    by (simp add: sum_list_map_filter' [symmetric] comp_def)
  then show ?thesis
    by (simp add: reportedCost_def computePhase_costs [OF assms] foldl_plus)
qed


lemma execute_reports_cost:
  fixes E :: "('b, 'o, 's) env" and st :: "('o, 's) state" and batch :: 'b
  defines "bs \<equiv> batch_split E batch (length (devices st))"
  defines "st1 \<equiv> (if first st then firstStep E bs st else st)"
  defines "s1 \<equiv> (\<lambda>s. sched_update E s (reportedCost (fst (computePhase E bs st1))) batch)"
  assumes sch: "scheduler st = Some s" and no: "\<not> saving E (s1 s)" "\<not> validating E (s1 s)"
  shows "\<exists>st'. execute E batch st = Inr st' \<and> scheduler st' = Some (s1 s)"
proof -
  define st2 where "st2 = snd (computePhase E bs st1)"
  have ex: "execute E batch st =
      (case reducePhase E bs st2 of
         Inl e \<Rightarrow> Inl e
       | Inr st3 \<Rightarrow> afterStep E batch (reportedCost (fst (computePhase E bs st1))) st3)"
    unfolding execute_def Let_def bs_def st1_def st2_def by (rule refl)
  have f2: "scheduler st2 = Some s" using sch by (simp add: st2_def st1_def)
  obtain st3 where r: "reducePhase E bs st2 = Inr st3"
    using reduceLoop_completes [of st2 E bs 0 "[0..<length (devices st2)]"] f2
    by (auto simp: reducePhase_def)
  have f3: "scheduler st3 = Some s"
    using reduceLoop_fields [of E bs 0 "[0..<length (devices st2)]" st2 st3] r f2
    by (simp add: reducePhase_def)
  have "afterStep E batch (reportedCost (fst (computePhase E bs st1))) st3
          = Inr (st3\<lparr>scheduler := Some (s1 s)\<rparr>)"
    using f3 no by (simp add: afterStep_def Let_def s1_def)
  then show ?thesis unfolding ex using r by simp
qed

theorem reportedCost_divides_by_devices_witness:
  "length [1, 1, 0 :: nat]
     = length (devices (firstStep (exampleEnv False False False) [1, 1, 0]
                 (setScheduler (0, 0) (exampleGroup [0, 1, 2] False))))
   \<and> reportedCost (fst (computePhase (exampleEnv False False False) [1, 1, 0]
         (firstStep (exampleEnv False False False) [1, 1, 0]
            (setScheduler (0, 0) (exampleGroup [0, 1, 2] False))))) = 2
   \<and> (3 + 3) / 2 = (3 :: real)
   \<and> (\<exists>st'. execute (exampleEnv False False False) 2
               (setScheduler (0, 0) (exampleGroup [0, 1, 2] False)) = Inr st'
          \<and> scheduler st' = Some (1, 2))"
proof -
  let ?E = "exampleEnv False False False"
  let ?st = "setScheduler (0, 0) (exampleGroup [0, 1, 2] False) :: (unit, nat \<times> real) state"
  let ?st1 = "firstStep ?E [1, 1, 0] ?st"
  have fr: "fresh ?st"
    by (simp add: fresh_def setScheduler_def exampleGroup_def SyncGraphGroup_def)
  have f: "first ?st" "scheduler ?st = Some (0, 0)" "devices ?st = [0, 1, 2]"
    by (simp_all add: setScheduler_def exampleGroup_def SyncGraphGroup_def)
  have sy: "synchronized ?st1" using fr example_contracts(2) by (rule firstStep_synchronized)
  have l1: "length [1, 1, 0 :: nat] = length (devices ?st1)" using f(3) by simp
  have l2: "length (graphs ?st1) = length (devices ?st1)" using sy by (simp add: synchronized_def)
  have ts: "fst (train_step ?E r b g) = 3" for r b g by (simp add: exampleEnv_def)
  have c: "reportedCost (fst (computePhase ?E [1, 1, 0] ?st1)) = 2"
    unfolding reportedCost_divides_by_devices [OF l1 l2] ts using f(3) by simp
  have bs: "batch_split ?E 2 (length (devices ?st)) = [1, 1, 0]"
    using example_batches [of False False False] f(3) by (simp add: numeral_3_eq_3)
  have "\<exists>st'. execute ?E 2 ?st = Inr st'
          \<and> scheduler st' = Some (sched_update ?E (0, 0)
               (reportedCost (fst (computePhase ?E [1, 1, 0] ?st1))) 2)"
    using execute_reports_cost [of ?st "(0, 0)" ?E 2] f(1,2) unfolding bs
    by (simp add: exampleEnv_def)
  then have e: "\<exists>st'. execute ?E 2 ?st = Inr st' \<and> scheduler st' = Some (1, 2)"
    unfolding c by (simp add: exampleEnv_def)
  show ?thesis using l1 c e by simp
qed

subsection \<open>The shard ranges stay inside the buffer\<close>

text \<open>
  Every range of the shard table lies inside the parameter buffer, and each
  range starts where the previous one ends; so the writes of \<open>copyTo\<close> made
  by \<open>fetchParams\<close> and by the broadcast never pass the end of the buffer.
\<close>

lemma shardRanges_in_bounds:
  assumes "r \<in> set (shardRanges S pos t ds)"
  shows "pos \<le> fst r \<and> fst r + snd r \<le> pos + t"
proof -
  obtain k where k: "k < length ds" "r = shardRanges S pos t ds ! k"
    using assms by (auto simp: in_set_conv_nth)
  have "min t (k * S) + min S (t - k * S) \<le> t" by (rule min_range)
  then show ?thesis unfolding k(2) shardRanges_nth [OF k(1)] by simp
qed

lemma shardRanges_contiguous:
  assumes "Suc k < length ds"
  shows "fst (shardRanges S pos t ds ! Suc k)
         = fst (shardRanges S pos t ds ! k) + snd (shardRanges S pos t ds ! k)"
proof -
  have k: "k < length ds" using assms by simp
  have "min t (S + k * S) = min t (k * S) + min S (t - k * S)" by (auto simp: min_def)
  then show ?thesis
    unfolding shardRanges_nth [OF assms] shardRanges_nth [OF k] by simp
qed

text \<open>Ten parameters on two devices: two shards of five.\<close>

lemma shardSizeOf_example: "shardSizeOf 10 2 = 5"
  by (simp add: shardSizeOf_def f32_div_def f32_of_nat_def round_even_def Let_def)

lemma shardTable_example: "shardTable 10 [0, 1 :: nat] = [(0, 5), (5, 5)]"
  using shardSizeOf_example by (simp add: shardTable_def Let_def numeral_2_eq_2)

text \<open>
  In a synchronized state the gradient shard and the temporary buffer of a
  device have the size of its parameter shard, and the shard ends inside the
  parameter buffer.
\<close>

lemma synchronized_shard_buffers:
  assumes sy: "synchronized st" and idx: "idx < length (devices st)"
  shows "length (grads st ! idx) = length (params st ! idx)"
    and "length (tmpTensors st ! idx) = length (params st ! idx)"
    and "offset (params st) idx + length (params st ! idx) \<le> length (vals (graphs st ! 0))"
proof -
  have lp: "length (params st) = length (devices st)"
    and g: "map length (grads st) = map length (params st)"
    and t: "map length (tmpTensors st) = map length (params st)"
    and ss: "shard_sizes (shardSize st) (length (vals (graphs st ! 0))) (params st)"
    using sy by (simp_all add: synchronized_def)
  have "map length (grads st) ! idx = map length (params st) ! idx" using g by simp
  then show "length (grads st ! idx) = length (params st ! idx)"
    using idx lp map_eq_imp_length_eq [OF g] by simp
  have "map length (tmpTensors st) ! idx = map length (params st) ! idx" using t by simp
  then show "length (tmpTensors st ! idx) = length (params st ! idx)"
    using idx lp map_eq_imp_length_eq [OF t] by simp
  have "offset (params st) (Suc idx) \<le> length (vals (graphs st ! 0))"
    using ss by (rule offset_le_total) (use idx lp in simp)
  then show "offset (params st) idx + length (params st ! idx) \<le> length (vals (graphs st ! 0))"
    using idx lp by (simp add: offset_Suc)
qed

end
